theory Spec2Isabelle
  imports Main "HOL-Library.Char_ord" "HOL-Library.Multiset"
begin

section \<open>Characters, exceptions and Python list primitives\<close>

text \<open>
  The repository is Python: \<^verbatim>\<open>pygaddag.py\<close> (classes \<^verbatim>\<open>GADDAG\<close> and \<^verbatim>\<open>Node\<close>) and
  \<^verbatim>\<open>solver.py\<close> (class \<^verbatim>\<open>Solver\<close>).  Strings and lists of one-character strings are both
  modelled as \<^typ>\<open>char list\<close>, a character being a code point below 256.  On these
  \<^verbatim>\<open>str.isalpha\<close> holds for the 52 letters of ASCII and for 65 letters of Latin-1, and
  \<^verbatim>\<open>str.lower\<close> maps the 26 capitals of ASCII and the 30 capitals of Latin-1 to their
  small letters, character by character, and leaves everything else alone.
\<close>

definition alpha_chars :: string where
  "alpha_chars = ''abcdefghijklmnopqrstuvwxyzABCDEFGHIJKLMNOPQRSTUVWXYZ'' @
       [CHR 0xAA, CHR 0xB5, CHR 0xBA, CHR 0xC0, CHR 0xC1, CHR 0xC2, CHR 0xC3, CHR 0xC4,
        CHR 0xC5, CHR 0xC6, CHR 0xC7, CHR 0xC8, CHR 0xC9, CHR 0xCA, CHR 0xCB, CHR 0xCC,
        CHR 0xCD, CHR 0xCE, CHR 0xCF, CHR 0xD0, CHR 0xD1, CHR 0xD2, CHR 0xD3, CHR 0xD4,
        CHR 0xD5, CHR 0xD6, CHR 0xD8, CHR 0xD9, CHR 0xDA, CHR 0xDB, CHR 0xDC, CHR 0xDD,
        CHR 0xDE, CHR 0xDF, CHR 0xE0, CHR 0xE1, CHR 0xE2, CHR 0xE3, CHR 0xE4, CHR 0xE5,
        CHR 0xE6, CHR 0xE7, CHR 0xE8, CHR 0xE9, CHR 0xEA, CHR 0xEB, CHR 0xEC, CHR 0xED,
        CHR 0xEE, CHR 0xEF, CHR 0xF0, CHR 0xF1, CHR 0xF2, CHR 0xF3, CHR 0xF4, CHR 0xF5,
        CHR 0xF6, CHR 0xF8, CHR 0xF9, CHR 0xFA, CHR 0xFB, CHR 0xFC, CHR 0xFD, CHR 0xFE,
        CHR 0xFF]"

definition isalpha :: "char \<Rightarrow> bool" where
  "isalpha c = (c \<in> set alpha_chars)"

definition upper_chars :: string where
  "upper_chars = ''ABCDEFGHIJKLMNOPQRSTUVWXYZ'' @
       [CHR 0xC0, CHR 0xC1, CHR 0xC2, CHR 0xC3, CHR 0xC4, CHR 0xC5, CHR 0xC6, CHR 0xC7,
        CHR 0xC8, CHR 0xC9, CHR 0xCA, CHR 0xCB, CHR 0xCC, CHR 0xCD, CHR 0xCE, CHR 0xCF,
        CHR 0xD0, CHR 0xD1, CHR 0xD2, CHR 0xD3, CHR 0xD4, CHR 0xD5, CHR 0xD6, CHR 0xD8,
        CHR 0xD9, CHR 0xDA, CHR 0xDB, CHR 0xDC, CHR 0xDD, CHR 0xDE]"

definition lower_chars :: string where
  "lower_chars = ''abcdefghijklmnopqrstuvwxyz'' @
       [CHR 0xE0, CHR 0xE1, CHR 0xE2, CHR 0xE3, CHR 0xE4, CHR 0xE5, CHR 0xE6, CHR 0xE7,
        CHR 0xE8, CHR 0xE9, CHR 0xEA, CHR 0xEB, CHR 0xEC, CHR 0xED, CHR 0xEE, CHR 0xEF,
        CHR 0xF0, CHR 0xF1, CHR 0xF2, CHR 0xF3, CHR 0xF4, CHR 0xF5, CHR 0xF6, CHR 0xF8,
        CHR 0xF9, CHR 0xFA, CHR 0xFB, CHR 0xFC, CHR 0xFD, CHR 0xFE]"

definition lower :: "char \<Rightarrow> char" where
  "lower c = (case map_of (zip upper_chars lower_chars) c of Some d \<Rightarrow> d | None \<Rightarrow> c)"

text \<open>An exception that leaves a function is a value \<open>Inl e\<close> of a sum type.\<close>

datatype pyerr = IndexError | ValueError | KeyError | TypeError | AttributeError

text \<open>\<^verbatim>\<open>xs[i]\<close> for an index \<open>i \<ge> 0\<close>: IndexError outside the list.\<close>

definition nth_e :: "'a list \<Rightarrow> nat \<Rightarrow> pyerr + 'a" where
  "nth_e xs i = (if i < length xs then Inr (xs ! i) else Inl IndexError)"

text \<open>\<^verbatim>\<open>xs[i] = v\<close>: IndexError outside the list.\<close>

definition upd_e :: "'a list \<Rightarrow> nat \<Rightarrow> 'a \<Rightarrow> pyerr + 'a list" where
  "upd_e xs i v = (if i < length xs then Inr (xs[i := v]) else Inl IndexError)"

text \<open>\<^verbatim>\<open>xs.remove(v)\<close> deletes the first occurrence; ValueError when there is none.\<close>

definition remove_e :: "'a list \<Rightarrow> 'a \<Rightarrow> pyerr + 'a list" where
  "remove_e xs v = (if v \<in> set xs then Inr (remove1 v xs) else Inl ValueError)"

text \<open>A \<^verbatim>\<open>for\<close> loop over a list that stops at the first exception.\<close>

fun foldE :: "('a \<Rightarrow> 's \<Rightarrow> pyerr + 's) \<Rightarrow> 'a list \<Rightarrow> 's \<Rightarrow> pyerr + 's" where
  "foldE f [] s = Inr s"
| "foldE f (x # xs) s = (case f x s of Inl e \<Rightarrow> Inl e | Inr s' \<Rightarrow> foldE f xs s')"

text \<open>A list comprehension \<^verbatim>\<open>[x for x in xs if p(x)]\<close> whose test may raise.\<close>

fun filterE :: "('a \<Rightarrow> pyerr + bool) \<Rightarrow> 'a list \<Rightarrow> pyerr + 'a list" where
  "filterE p [] = Inr []"
| "filterE p (x # xs) =
     (case p x of Inl e \<Rightarrow> Inl e
      | Inr b \<Rightarrow> (case filterE p xs of Inl e \<Rightarrow> Inl e
                  | Inr ys \<Rightarrow> Inr (if b then x # ys else ys)))"

section \<open>The GADDAG as the queries see it\<close>

text \<open>
  A \<^verbatim>\<open>Node\<close> has a dictionary \<^verbatim>\<open>_edges\<close> from a character to the child node and a flag
  \<^verbatim>\<open>_end\<close>.  The queries only read the graph, and they identify a word by its letters,
  never by the identity of a node, so for them a node is the tree of everything reachable
  from it.  The dictionary is the list of its items in insertion order, which is the order
  \<^verbatim>\<open>for char in node\<close> visits them; its keys are distinct.  (Insertion, which depends
  on which nodes are shared, works on a store of nodes further down.)
\<close>

datatype node = Node (edges_of: "(char \<times> node) list") (is_end: bool)

text \<open>\<^verbatim>\<open>node[char]\<close>: KeyError when the edge is missing.\<close>

definition getitem :: "node \<Rightarrow> char \<Rightarrow> pyerr + node" where
  "getitem n c = (case map_of (edges_of n) c of None \<Rightarrow> Inl KeyError | Some m \<Rightarrow> Inr m)"

text \<open>\<^verbatim>\<open>Node.follow\<close>: the node at the end of the characters, \<^verbatim>\<open>None\<close> when an edge is missing.\<close>

fun follow :: "node \<Rightarrow> string \<Rightarrow> node option" where
  "follow n [] = Some n"
| "follow n (c # cs) = (case getitem n c of Inl e \<Rightarrow> None | Inr m \<Rightarrow> follow m cs)"

text \<open>
  \<^verbatim>\<open>GADDAG.get_newlist(char, lst, flag)\<close>: the list itself when the flag or the list is
  falsy, otherwise a copy without one \<^verbatim>\<open>char\<close> or, when there is none, without one blank
  (and \<^verbatim>\<open>list.remove\<close> raises ValueError when there is no blank either).
\<close>

definition get_newlist :: "char \<Rightarrow> char list \<Rightarrow> bool \<Rightarrow> pyerr + char list" where
  "get_newlist c lst flag =
     (if \<not> flag \<or> lst = [] then Inr lst
      else if c \<in> set lst then Inr (remove1 c lst)
      else remove_e lst CHR '' '')"

text \<open>\<^verbatim>\<open>GADDAG.check_pattern(partial_word, pattern)\<close>.\<close>

definition check_pattern :: "string \<Rightarrow> string \<Rightarrow> bool" where
  "check_pattern partial_word pattern =
     (if length partial_word \<noteq> length pattern then False
      else (\<forall>i \<in> set [0..<length pattern].
              \<not> (pattern ! i \<noteq> CHR ''-'' \<and> partial_word ! i \<noteq> pattern ! i)))"

text \<open>
  The crawlers are generators.  Each is modelled by the list of everything it yields, in
  order, or by the exception that ends the iteration.  The set \<^verbatim>\<open>found_words\<close> receives a
  word exactly when the word is yielded, so the list of yields carried through the
  recursion also stands for it.  A crawler takes the list yielded so far and returns it
  extended.

  \<^verbatim>\<open>_crawl(node, partial_word, found_words, wrapped)\<close>:
\<close>

fun crawl :: "node \<Rightarrow> string \<Rightarrow> bool \<Rightarrow> string list \<Rightarrow> string list"
  and crawl_edges :: "(char \<times> node) list \<Rightarrow> string \<Rightarrow> bool \<Rightarrow> string list \<Rightarrow> string list" where
  "crawl (Node es e) partial_word wrapped found =
     crawl_edges es partial_word wrapped
       (if e \<and> partial_word \<notin> set found then found @ [partial_word] else found)"
| "crawl_edges [] partial_word wrapped found = found"
| "crawl_edges ((c, next_node) # es) partial_word wrapped found =
     crawl_edges es partial_word wrapped
       (if c = CHR ''+'' then crawl next_node partial_word True found
        else crawl next_node (if wrapped then partial_word @ [c] else c # partial_word)
               wrapped found)"

text \<open>\<^verbatim>\<open>_crawl_end(node, partial_word)\<close>, which keeps no set of found words.\<close>

fun crawl_end :: "node \<Rightarrow> string \<Rightarrow> string list"
  and crawl_end_edges :: "(char \<times> node) list \<Rightarrow> string \<Rightarrow> string list" where
  "crawl_end (Node es e) partial_word =
     (case getitem (Node es e) CHR ''+'' of
        Inr m \<Rightarrow> (if is_end m then [partial_word] else [])
      | Inl err \<Rightarrow> [])
     @ crawl_end_edges es partial_word"
| "crawl_end_edges [] partial_word = []"
| "crawl_end_edges ((c, next_node) # es) partial_word =
     (if c \<noteq> CHR ''+'' then crawl_end next_node (c # partial_word) else [])
     @ crawl_end_edges es partial_word"

text \<open>
  \<^verbatim>\<open>_crawl_lett(node, partial_word, letters, no, found_words, wrapped)\<close> yields pairs
  \<^verbatim>\<open>(no, partial_word)\<close>.  The flag passed to \<^verbatim>\<open>get_newlist\<close> is the list \<^verbatim>\<open>letters\<close>
  itself, which is truthy when it is not empty.
\<close>

fun crawl_lett :: "node \<Rightarrow> string \<Rightarrow> char list \<Rightarrow> nat \<Rightarrow> bool \<Rightarrow> (nat \<times> string) list
      \<Rightarrow> pyerr + (nat \<times> string) list"
  and crawl_lett_edges :: "(char \<times> node) list \<Rightarrow> string \<Rightarrow> char list \<Rightarrow> nat \<Rightarrow> bool
      \<Rightarrow> (nat \<times> string) list \<Rightarrow> pyerr + (nat \<times> string) list" where
  "crawl_lett (Node es e) partial_word lets no wrapped found =
     crawl_lett_edges es partial_word lets no wrapped
       (if e \<and> partial_word \<notin> snd ` set found then found @ [(no, partial_word)] else found)"
| "crawl_lett_edges [] partial_word lets no wrapped found = Inr found"
| "crawl_lett_edges ((c, next_node) # es) partial_word lets no wrapped found =
     (if c = CHR ''+'' then
        (case crawl_lett next_node partial_word lets no True found of
           Inl err \<Rightarrow> Inl err
         | Inr found' \<Rightarrow> crawl_lett_edges es partial_word lets no wrapped found')
      else if lets \<noteq> [] \<and> (c \<in> set lets \<or> CHR '' '' \<in> set lets) then
        (case get_newlist c lets (lets \<noteq> []) of
           Inl err \<Rightarrow> Inl err
         | Inr new_letters \<Rightarrow>
             (case (if wrapped
                    then crawl_lett next_node (partial_word @ [c]) new_letters no wrapped found
                    else crawl_lett next_node (c # partial_word) new_letters (no + 1) wrapped found) of
                Inl err \<Rightarrow> Inl err
              | Inr found' \<Rightarrow> crawl_lett_edges es partial_word lets no wrapped found'))
      else crawl_lett_edges es partial_word lets no wrapped found)"

text \<open>\<^verbatim>\<open>_crawl_end_lett(node, partial_word, letters)\<close>.\<close>

fun crawl_end_lett :: "node \<Rightarrow> string \<Rightarrow> char list \<Rightarrow> pyerr + string list"
  and crawl_end_lett_edges :: "(char \<times> node) list \<Rightarrow> string \<Rightarrow> char list \<Rightarrow> pyerr + string list" where
  "crawl_end_lett (Node es e) partial_word lets =
     (case crawl_end_lett_edges es partial_word lets of
        Inl err \<Rightarrow> Inl err
      | Inr ws \<Rightarrow>
          Inr ((case getitem (Node es e) CHR ''+'' of
                  Inr m \<Rightarrow> (if is_end m then [partial_word] else [])
                | Inl err \<Rightarrow> []) @ ws))"
| "crawl_end_lett_edges [] partial_word lets = Inr []"
| "crawl_end_lett_edges ((c, next_node) # es) partial_word lets =
     (if c \<noteq> CHR ''+'' \<and> lets \<noteq> [] \<and> c \<in> set lets then
        (case get_newlist c lets True of
           Inl err \<Rightarrow> Inl err
         | Inr new_letters \<Rightarrow>
             (case crawl_end_lett next_node (c # partial_word) new_letters of
                Inl err \<Rightarrow> Inl err
              | Inr ws \<Rightarrow>
                  (case crawl_end_lett_edges es partial_word lets of
                     Inl err \<Rightarrow> Inl err
                   | Inr ws' \<Rightarrow> Inr (ws @ ws'))))
      else crawl_end_lett_edges es partial_word lets)"

text \<open>
  \<^verbatim>\<open>_crawl_lett_patt(node, partial_word, letters, pattern, no, pos, found_words, wrapped)\<close>.
  \<^verbatim>\<open>pattern\<close> is a dictionary from a position to a letter; \<^verbatim>\<open>None\<close> and the empty
  dictionary are both falsy and both have no key, so both are the empty map.  In the same
  way \<^verbatim>\<open>letters = None\<close> is the empty list.  The three entries of the tuple
  \<^verbatim>\<open>conditions\<close> are \<open>c0\<close>, \<open>c1\<close> and \<open>c2\<close>.
\<close>

fun crawl_lett_patt :: "node \<Rightarrow> string \<Rightarrow> char list \<Rightarrow> (nat \<rightharpoonup> char) \<Rightarrow> nat \<Rightarrow> nat \<Rightarrow> bool
      \<Rightarrow> (nat \<times> string) list \<Rightarrow> pyerr + (nat \<times> string) list"
  and crawl_lett_patt_edges :: "(char \<times> node) list \<Rightarrow> string \<Rightarrow> char list \<Rightarrow> (nat \<rightharpoonup> char)
      \<Rightarrow> nat \<Rightarrow> nat \<Rightarrow> bool \<Rightarrow> (nat \<times> string) list \<Rightarrow> pyerr + (nat \<times> string) list" where
  "crawl_lett_patt (Node es e) partial_word lets pattern no pos wrapped found =
     crawl_lett_patt_edges es partial_word lets pattern no pos wrapped
       (if e \<and> partial_word \<notin> snd ` set found then found @ [(no, partial_word)] else found)"
| "crawl_lett_patt_edges [] partial_word lets pattern no pos wrapped found = Inr found"
| "crawl_lett_patt_edges ((c, next_node) # es) partial_word lets pattern no pos wrapped found =
     (let c0 = (lets = [] \<or> c \<in> set lets \<or> CHR '' '' \<in> set lets);
          c1 = (pattern pos \<noteq> None);
          c2 = (pattern pos = Some c)
      in if c = CHR ''+'' then
           (case crawl_lett_patt next_node partial_word lets pattern no pos True found of
              Inl err \<Rightarrow> Inl err
            | Inr found' \<Rightarrow> crawl_lett_patt_edges es partial_word lets pattern no pos wrapped found')
         else if wrapped \<and> (c2 \<or> (\<not> c1 \<and> c0)) then
           (case get_newlist c lets (lets \<noteq> [] \<and> \<not> c2) of
              Inl err \<Rightarrow> Inl err
            | Inr new_letters \<Rightarrow>
                (case crawl_lett_patt next_node (partial_word @ [c]) new_letters pattern no (pos + 1)
                        wrapped found of
                   Inl err \<Rightarrow> Inl err
                 | Inr found' \<Rightarrow>
                     crawl_lett_patt_edges es partial_word lets pattern no pos wrapped found'))
         else if \<not> wrapped \<and> c0 then
           (case get_newlist c lets (lets \<noteq> []) of
              Inl err \<Rightarrow> Inl err
            | Inr new_letters \<Rightarrow>
                (case crawl_lett_patt next_node (c # partial_word) new_letters pattern (no + 1) pos
                        wrapped found of
                   Inl err \<Rightarrow> Inl err
                 | Inr found' \<Rightarrow>
                     crawl_lett_patt_edges es partial_word lets pattern no pos wrapped found'))
         else crawl_lett_patt_edges es partial_word lets pattern no pos wrapped found)"

text \<open>
  \<^verbatim>\<open>_crawl_find_lett_patt(node, partial_word, letters, pattern, found_words, wrapped)\<close>,
  the crawler behind the solver's query.  Both branches of its inner \<^verbatim>\<open>if wrapped\<close>
  compute the same \<^verbatim>\<open>new_letters\<close>.
\<close>

fun crawl_find_lett_patt :: "node \<Rightarrow> string \<Rightarrow> char list \<Rightarrow> string \<Rightarrow> bool \<Rightarrow> string list
      \<Rightarrow> pyerr + string list"
  and crawl_find_lett_patt_edges :: "(char \<times> node) list \<Rightarrow> string \<Rightarrow> char list \<Rightarrow> string \<Rightarrow> bool
      \<Rightarrow> string list \<Rightarrow> pyerr + string list" where
  "crawl_find_lett_patt (Node es e) partial_word lets pattern wrapped found =
     crawl_find_lett_patt_edges es partial_word lets pattern wrapped
       (if e \<and> partial_word \<notin> set found \<and> check_pattern partial_word pattern
        then found @ [partial_word] else found)"
| "crawl_find_lett_patt_edges [] partial_word lets pattern wrapped found = Inr found"
| "crawl_find_lett_patt_edges ((c, next_node) # es) partial_word lets pattern wrapped found =
     (if c = CHR ''+'' then
        (case crawl_find_lett_patt next_node partial_word lets pattern True found of
           Inl err \<Rightarrow> Inl err
         | Inr found' \<Rightarrow> crawl_find_lett_patt_edges es partial_word lets pattern wrapped found')
      else if c \<in> set lets \<and> length partial_word < length pattern then
        (case get_newlist c lets (lets \<noteq> []) of
           Inl err \<Rightarrow> Inl err
         | Inr new_letters \<Rightarrow>
             (case crawl_find_lett_patt next_node
                     (if wrapped then partial_word @ [c] else c # partial_word)
                     new_letters pattern wrapped found of
                Inl err \<Rightarrow> Inl err
              | Inr found' \<Rightarrow> crawl_find_lett_patt_edges es partial_word lets pattern wrapped found'))
      else crawl_find_lett_patt_edges es partial_word lets pattern wrapped found)"

subsection \<open>The query functions\<close>

text \<open>
  A query returns either the empty set \<^verbatim>\<open>set()\<close> or a generator object.  Creating a
  generator runs none of its body, so no exception of the body can be caught by a
  \<^verbatim>\<open>try\<close> around the call; it surfaces when the generator is iterated.  A generator is
  modelled by what iterating it to the end gives.
\<close>

datatype 'a pyresult = EmptySet | Generator "pyerr + 'a list"

text \<open>\<^verbatim>\<open>list(result)\<close>.\<close>

fun iterate :: "'a pyresult \<Rightarrow> pyerr + 'a list" where
  "iterate EmptySet = Inr []"
| "iterate (Generator r) = r"

text \<open>
  The body of \<^verbatim>\<open>_crawl\<close> started on \<^verbatim>\<open>None\<close> raises AttributeError at its first
  statement that reads \<^verbatim>\<open>node.is_end\<close>.  The bodies of \<^verbatim>\<open>_crawl_end\<close> and
  \<^verbatim>\<open>_crawl_end_lett\<close> start with \<^verbatim>\<open>node["+"]\<close> inside a \<^verbatim>\<open>try\<close> whose
  \<^verbatim>\<open>except TypeError: return\<close> ends the generator.
\<close>

definition contains :: "node \<Rightarrow> string \<Rightarrow> string pyresult" where
  "contains root sub =
     Generator (case follow root (rev sub) of
                  None \<Rightarrow> Inl AttributeError
                | Some start_node \<Rightarrow> Inr (crawl start_node sub False []))"

definition starts_with :: "node \<Rightarrow> string \<Rightarrow> string pyresult" where
  "starts_with root prefix =
     (case follow root (rev prefix) of
        None \<Rightarrow> EmptySet
      | Some n \<Rightarrow> (case getitem n CHR ''+'' of
                     Inl err \<Rightarrow> EmptySet
                   | Inr start_node \<Rightarrow> Generator (Inr (crawl start_node prefix True []))))"

definition ends_with :: "node \<Rightarrow> string \<Rightarrow> string pyresult" where
  "ends_with root suffix =
     Generator (case follow root (rev suffix) of
                  None \<Rightarrow> Inr []
                | Some start_node \<Rightarrow> Inr (crawl_end start_node suffix))"

definition contains_lett :: "node \<Rightarrow> string \<Rightarrow> char list \<Rightarrow> (nat \<times> string) pyresult" where
  "contains_lett root sub lets =
     (case follow root (rev sub) of
        None \<Rightarrow> EmptySet
      | Some start_node \<Rightarrow> Generator (crawl_lett start_node sub lets 0 False []))"

definition starts_with_lett :: "node \<Rightarrow> string \<Rightarrow> char list \<Rightarrow> (nat \<times> string) pyresult" where
  "starts_with_lett root prefix lets =
     (case follow root (rev prefix) of
        None \<Rightarrow> EmptySet
      | Some n \<Rightarrow> (case getitem n CHR ''+'' of
                     Inl err \<Rightarrow> EmptySet
                   | Inr start_node \<Rightarrow> Generator (crawl_lett start_node prefix lets 0 True [])))"

definition ends_with_lett :: "node \<Rightarrow> string \<Rightarrow> char list \<Rightarrow> string pyresult" where
  "ends_with_lett root suffix lets =
     Generator (case follow root (rev suffix) of
                  None \<Rightarrow> Inr []
                | Some start_node \<Rightarrow> crawl_end_lett start_node suffix lets)"

definition contains_lett_patt ::
    "node \<Rightarrow> string \<Rightarrow> char list \<Rightarrow> (nat \<rightharpoonup> char) \<Rightarrow> (nat \<times> string) pyresult" where
  "contains_lett_patt root sub lets pattern =
     (case follow root (rev sub) of
        None \<Rightarrow> EmptySet
      | Some start_node \<Rightarrow> Generator (crawl_lett_patt start_node sub lets pattern 0 0 False []))"

text \<open>
  \<^verbatim>\<open>find_lett_patt(letters, pattern)\<close> first appends every alphabetic character of the
  pattern to the list it was given, one \<^verbatim>\<open>append\<close> at a time, and then creates the
  generator on that same list.  The model returns the caller's list as it is after the call
  together with the result.
\<close>

fun append_pattern_letters :: "char list \<Rightarrow> string \<Rightarrow> char list" where
  "append_pattern_letters lets [] = lets"
| "append_pattern_letters lets (c # pattern) =
     append_pattern_letters (if isalpha c then lets @ [c] else lets) pattern"

definition find_lett_patt :: "node \<Rightarrow> char list \<Rightarrow> string \<Rightarrow> char list \<times> string pyresult" where
  "find_lett_patt root lets pattern =
     (let lets' = append_pattern_letters lets pattern
      in (lets', Generator (crawl_find_lett_patt root [] lets' pattern False [])))"

section \<open>The GADDAG as \<^verbatim>\<open>_add_word\<close> builds it\<close>

text \<open>
  Insertion mutates nodes that are shared between paths, so the nodes live in a store: a
  list of nodes, where the address of a node is its index and a new \<^verbatim>\<open>Node()\<close> is
  appended.  The root is at address 0.  A node is its dict \<^verbatim>\<open>_edges\<close>, in insertion
  order, from characters to addresses, and its flag \<^verbatim>\<open>_end\<close>.
\<close>

record hnode =
  h_edges :: "(char \<times> nat) list"
  h_end :: bool

type_synonym heap = "hnode list"

definition new_node :: "bool \<Rightarrow> hnode" where
  "new_node e = \<lparr>h_edges = [], h_end = e\<rparr>"

definition empty_gaddag :: heap where
  "empty_gaddag = [new_node False]"

definition alloc :: "heap \<Rightarrow> bool \<Rightarrow> heap \<times> nat" where
  "alloc h e = (h @ [new_node e], length h)"

text \<open>\<^verbatim>\<open>self._edges[char]\<close>, with \<^verbatim>\<open>None\<close> where Python raises KeyError.\<close>

definition edge :: "heap \<Rightarrow> nat \<Rightarrow> char \<Rightarrow> nat option" where
  "edge h n c = map_of (h_edges (h ! n)) c"

text \<open>\<^verbatim>\<open>d[k] = v\<close> on a dict: in place when the key is there, at the end otherwise.\<close>

fun dict_put :: "('k \<times> 'v) list \<Rightarrow> 'k \<Rightarrow> 'v \<Rightarrow> ('k \<times> 'v) list" where
  "dict_put [] k v = [(k, v)]"
| "dict_put ((k', v') # d) k v = (if k' = k then (k, v) # d else (k', v') # dict_put d k v)"

text \<open>\<^verbatim>\<open>Node.set_edge(char, dst)\<close>.\<close>

definition set_edge :: "heap \<Rightarrow> nat \<Rightarrow> char \<Rightarrow> nat \<Rightarrow> heap" where
  "set_edge h n c dst = h[n := (h ! n)\<lparr>h_edges := dict_put (h_edges (h ! n)) c dst\<rparr>]"

text \<open>
  \<^verbatim>\<open>Node.add_edge(char, dst=None, end=False)\<close>: the node \<^verbatim>\<open>Node(end)\<close> is created
  before the test \<^verbatim>\<open>char in self\<close>, also when the edge is there already.
\<close>

definition add_edge :: "heap \<Rightarrow> nat \<Rightarrow> char \<Rightarrow> nat option \<Rightarrow> bool \<Rightarrow> heap \<times> nat" where
  "add_edge h n c dst e =
     (case (case dst of None \<Rightarrow> alloc h e | Some d \<Rightarrow> (h, d)) of
        (h1, d) \<Rightarrow> (case edge h1 n c of
                      Some t \<Rightarrow> (h1, t)
                    | None \<Rightarrow> (set_edge h1 n c d, d)))"

text \<open>\<^verbatim>\<open>Node.add_path(chars)\<close>.\<close>

fun add_path :: "heap \<Rightarrow> nat \<Rightarrow> string \<Rightarrow> heap \<times> nat" where
  "add_path h n [] = (h, n)"
| "add_path h n (c # cs) = (case add_edge h n c None False of (h', m) \<Rightarrow> add_path h' m cs)"

text \<open>\<^verbatim>\<open>node.end = True\<close> and \<^verbatim>\<open>Node.add_end(char)\<close>.\<close>

definition mark_end :: "heap \<Rightarrow> nat \<Rightarrow> heap" where
  "mark_end h t = h[t := (h ! t)\<lparr>h_end := True\<rparr>]"

definition add_end :: "heap \<Rightarrow> nat \<Rightarrow> char \<Rightarrow> heap" where
  "add_end h n c =
     (case edge h n c of
        Some t \<Rightarrow> mark_end h t
      | None \<Rightarrow> fst (add_edge h n c None True))"

text \<open>
  \<^verbatim>\<open>GADDAG._has(word)\<close>: the loop \<^verbatim>\<open>node = node[char]\<close> over the reversed word, then
  \<^verbatim>\<open>node["+"]\<close>; a KeyError anywhere gives \<^verbatim>\<open>False\<close>.
\<close>

fun walk :: "heap \<Rightarrow> nat \<Rightarrow> string \<Rightarrow> nat option" where
  "walk h n [] = Some n"
| "walk h n (c # cs) = (case edge h n c of None \<Rightarrow> None | Some m \<Rightarrow> walk h m cs)"

definition has :: "heap \<Rightarrow> string \<Rightarrow> bool" where
  "has h word = (case walk h 0 (rev word @ ''+'') of None \<Rightarrow> False | Some n \<Rightarrow> h_end (h ! n))"

text \<open>\<^verbatim>\<open>GADDAG.__contains__(word)\<close>, the test \<^verbatim>\<open>word in gaddag\<close>.\<close>

definition contains_word :: "heap \<Rightarrow> string \<Rightarrow> bool" where
  "contains_word h word = has h (map lower word)"

text \<open>
  The property \<^verbatim>\<open>Node.edges\<close>: the set of the labels, or \<^verbatim>\<open>None\<close> when there is no
  edge.  A node is truthy when \<^verbatim>\<open>__len__\<close>, the number of its edges, is not zero.
\<close>

definition node_edges :: "heap \<Rightarrow> nat \<Rightarrow> char set option" where
  "node_edges h n = (if h_edges (h ! n) = [] then None else Some (fst ` set (h_edges (h ! n))))"

definition truthy :: "heap \<Rightarrow> nat \<Rightarrow> bool" where
  "truthy h n \<longleftrightarrow> length (h_edges (h ! n)) \<noteq> 0"

text \<open>
  The body of the loop of \<^verbatim>\<open>_add_word\<close> at the split position \<open>m\<close>.  Its first two
  statements give the node that follows \<^verbatim>\<open>+\<close> on the path of \<^verbatim>\<open>word[m::-1]\<close>; the
  rest points the edge \<^verbatim>\<open>word[m + 1]\<close> of that node at \<^verbatim>\<open>existing_node\<close>, the node of
  the iteration before.
\<close>

definition split_node :: "heap \<Rightarrow> string \<Rightarrow> nat \<Rightarrow> heap \<times> nat" where
  "split_node h word m =
     (case add_path h 0 (rev (take (m + 1) word)) of
        (h1, n1) \<Rightarrow> add_edge h1 n1 CHR ''+'' None False)"

definition link_split :: "heap \<Rightarrow> string \<Rightarrow> nat \<Rightarrow> nat \<Rightarrow> heap \<times> (pyerr + nat)" where
  "link_split h word m existing_node =
     (case split_node h word m of
        (h2, node) \<Rightarrow>
          (case edge h2 node (word ! (m + 1)) of
             Some t \<Rightarrow>
               if truthy h2 t \<and> node_edges h2 t \<noteq> node_edges h2 existing_node
               then (h2, Inl AttributeError)
               else (set_edge h2 node (word ! (m + 1)) existing_node, Inr node)
           | None \<Rightarrow>
               (fst (add_edge h2 node (word ! (m + 1)) (Some existing_node) False), Inr node)))"

fun link_splits :: "heap \<Rightarrow> string \<Rightarrow> nat list \<Rightarrow> nat \<Rightarrow> heap \<times> (pyerr + nat)" where
  "link_splits h word [] node = (h, Inr node)"
| "link_splits h word (m # ms) node =
     (case link_split h word m node of
        (h', Inl e) \<Rightarrow> (h', Inl e)
      | (h', Inr node') \<Rightarrow> link_splits h' word ms node')"

text \<open>
  The statements of \<^verbatim>\<open>_add_word\<close> before its loop, for a word that is not in the GADDAG:
  the paths of \<^verbatim>\<open>word[-1::-1]\<close> (the reversed word) and of \<^verbatim>\<open>word[-2::-1]\<close> (the
  reversed word without its last character).  \<^verbatim>\<open>word[-1]\<close> raises IndexError on the
  empty word, after the statements before it have run.
\<close>

definition first_paths :: "heap \<Rightarrow> string \<Rightarrow> heap \<times> (pyerr + nat)" where
  "first_paths h word =
     (case add_path h 0 (rev word) of
        (h1, n1) \<Rightarrow>
          (case add_path (add_end h1 n1 CHR ''+'') 0 (rev (butlast word)) of
             (h3, n3) \<Rightarrow>
               (case add_edge h3 n3 CHR ''+'' None False of
                  (h4, node) \<Rightarrow>
                    if word = [] then (h4, Inl IndexError)
                    else (add_end h4 node (last word), Inr node))))"

text \<open>
  \<^verbatim>\<open>GADDAG._add_word(word)\<close>, which is all of \<^verbatim>\<open>GADDAG.add\<close>.  The loop runs
  \<open>m\<close> over \<^verbatim>\<open>range(len(word) - 3, -1, -1)\<close>.  The line \<^verbatim>\<open>word = word.lower()\<close> is
  commented out in the source.  The store is returned as the call leaves it, also when it
  raises.
\<close>

definition add_word :: "heap \<Rightarrow> string \<Rightarrow> heap \<times> (pyerr + bool)" where
  "add_word h word =
     (if contains_word h word then (h, Inr False)
      else (case first_paths h word of
              (h5, Inl e) \<Rightarrow> (h5, Inl e)
            | (h5, Inr node) \<Rightarrow>
                (case link_splits h5 word (rev [0..<length word - 2]) node of
                   (h6, Inl e) \<Rightarrow> (h6, Inl e)
                 | (h6, Inr node') \<Rightarrow> (h6, Inr True))))"


text \<open>
  Two insertions followed to the loop: \<^verbatim>\<open>abc\<close> added after \<^verbatim>\<open>ab\<close>, at its only split
  position 0, and \<^verbatim>\<open>b++b\<close> added to the empty GADDAG, at its second split position 0.
\<close>

definition ab_gaddag :: heap where
  "ab_gaddag = fst (add_word empty_gaddag ''ab'')"

definition abc_store :: heap where
  "abc_store = fst (first_paths ab_gaddag ''abc'')"

definition abc_existing :: nat where
  "abc_existing = projr (snd (first_paths ab_gaddag ''abc''))"

definition plus_store :: heap where
  "plus_store = fst (link_split (fst (first_paths empty_gaddag ''b++b'')) ''b++b'' 1
                       (projr (snd (first_paths empty_gaddag ''b++b''))))"

definition plus_existing :: nat where
  "plus_existing = projr (snd (link_split (fst (first_paths empty_gaddag ''b++b'')) ''b++b'' 1
                       (projr (snd (first_paths empty_gaddag ''b++b'')))))"

subsection \<open>The shape of a GADDAG built by \<^verbatim>\<open>add\<close>\<close>












section \<open>The solver\<close>

text \<open>
  A grid is a list of rows, each a list of one-character strings.  The list
  \<^verbatim>\<open>self.solutions\<close> holds grids, or the one string \<^verbatim>\<open>"ERROR"\<close>.
\<close>

type_synonym grid = "char list list"

datatype solution = Sentinel string | Grid grid

text \<open>\<^verbatim>\<open>grid[r][c]\<close> and \<^verbatim>\<open>grid[r][c] = v\<close> on a grid whose rows are separate objects.\<close>

definition get_cell :: "grid \<Rightarrow> nat \<Rightarrow> nat \<Rightarrow> pyerr + char" where
  "get_cell g r c = (case nth_e g r of Inl e \<Rightarrow> Inl e | Inr rw \<Rightarrow> nth_e rw c)"

definition set_cell :: "grid \<Rightarrow> nat \<Rightarrow> nat \<Rightarrow> char \<Rightarrow> pyerr + grid" where
  "set_cell g r c v =
     (case nth_e g r of Inl e \<Rightarrow> Inl e
      | Inr rw \<Rightarrow> (case upd_e rw c v of Inl e \<Rightarrow> Inl e | Inr rw' \<Rightarrow> Inr (g[r := rw'])))"

text \<open>The cells in the order of \<^verbatim>\<open>for row in range(5): for col in range(5)\<close>.\<close>

definition all_cells :: "(nat \<times> nat) list" where
  "all_cells = concat (map (\<lambda>r. map (\<lambda>c. (r, c)) [0..<5]) [0..<5])"

subsection \<open>State of a \<^verbatim>\<open>Solver\<close> object\<close>

text \<open>
  \<^verbatim>\<open>check_diagonal\<close> copies only the outer list of the grid it is given, so the rows of
  \<^verbatim>\<open>start_grid\<close> and \<^verbatim>\<open>init_grid\<close> can be the same objects.  The rows therefore live in a
  store \<open>rows\<close> (the address of a row is its index) and the two grids are lists of
  addresses.  \<^verbatim>\<open>init_grid\<close> is \<^verbatim>\<open>None\<close> until \<^verbatim>\<open>try_grid\<close> assigns it; the model starts
  it as the empty list.  The list \<^verbatim>\<open>self.solutions\<close> is what \<^verbatim>\<open>solve\<close> returns and is
  not kept in the record.
\<close>

record solver =
  graph :: node
  letters :: "char list"
  occurrences :: "(char \<times> nat) list"
  rows :: "char list list"
  start_grid :: "nat list"
  init_grid :: "nat list"
  singles :: "char list"
  even :: "char list"
  odd :: "char list"

text \<open>The grid behind a list of row addresses.\<close>

definition grid_of :: "char list list \<Rightarrow> nat list \<Rightarrow> grid" where
  "grid_of store g = map (\<lambda>a. store ! a) g"

subsection \<open>\<^verbatim>\<open>set_problem\<close>\<close>

text \<open>
  A dictionary with its keys in insertion order: \<^verbatim>\<open>d[k] = v\<close> and \<^verbatim>\<open>d.get(k, default)\<close>.
\<close>

fun dict_set :: "('k \<times> 'v) list \<Rightarrow> 'k \<Rightarrow> 'v \<Rightarrow> ('k \<times> 'v) list" where
  "dict_set [] k v = [(k, v)]"
| "dict_set ((k', v') # d) k v = (if k' = k then (k, v) # d else (k', v') # dict_set d k v)"

definition dict_get :: "('k \<times> 'v) list \<Rightarrow> 'k \<Rightarrow> 'v \<Rightarrow> 'v" where
  "dict_get d k dflt = (case map_of d k of None \<Rightarrow> dflt | Some v \<Rightarrow> v)"

text \<open>The loop that fills \<^verbatim>\<open>self.occurrences\<close>.\<close>

fun count_occurrences :: "(char \<times> nat) list \<Rightarrow> char list \<Rightarrow> (char \<times> nat) list" where
  "count_occurrences occ [] = occ"
| "count_occurrences occ (l # ls) = count_occurrences (dict_set occ l (dict_get occ l 0 + 1)) ls"

text \<open>The loop over \<^verbatim>\<open>self.occurrences.items()\<close> that fills (singles, even, odd).\<close>

fun classify :: "(char \<times> nat) list \<Rightarrow> char list \<times> char list \<times> char list
      \<Rightarrow> char list \<times> char list \<times> char list" where
  "classify [] acc = acc"
| "classify ((l, no) # items) (sing, ev, od) =
     classify items
       (if no = 1 then (sing @ [l], ev, od @ [l])
        else if no mod 2 \<noteq> 0 then (sing, ev, od @ [l])
        else (sing, ev @ [l], od))"

text \<open>The loop that takes the letters already in the start grid out of the pool.\<close>

fun remove_used :: "char list \<Rightarrow> char list \<Rightarrow> char list" where
  "remove_used lets [] = lets"
| "remove_used lets (l # used) = remove_used (if l \<in> set lets then remove1 l lets else lets) used"

definition set_problem :: "solver \<Rightarrow> string list \<Rightarrow> string list \<Rightarrow> solver" where
  "set_problem s rack patterns =
     (let lets = sort (map lower (concat rack));
          new_rows = map (map lower) patterns;
          occ = count_occurrences [] lets;
          (sing, ev, od) = classify occ ([], [], []);
          used_letters = filter isalpha (concat new_rows)
      in s\<lparr>letters := remove_used lets used_letters,
           occurrences := occ,
           rows := rows s @ new_rows,
           start_grid := [length (rows s)..<length (rows s) + length new_rows],
           singles := sing, even := ev, odd := od\<rparr>)"

subsection \<open>\<^verbatim>\<open>check_diagonal\<close>\<close>

text \<open>
  A \<^verbatim>\<open>for\<close> loop whose state is mutated in place: the state reached when an exception
  interrupts the loop is still there afterwards.
\<close>

fun loopS :: "('a \<Rightarrow> 's \<Rightarrow> 's \<times> pyerr option) \<Rightarrow> 'a list \<Rightarrow> 's \<Rightarrow> 's \<times> pyerr option" where
  "loopS f [] s = (s, None)"
| "loopS f (x # xs) s = (case f x s of (s', None) \<Rightarrow> loopS f xs s' | (s', Some e) \<Rightarrow> (s', Some e))"

text \<open>\<^verbatim>\<open>grid[r][c]\<close> and \<^verbatim>\<open>grid[r][c] = v\<close> through the store of rows.\<close>

definition get_ref :: "char list list \<Rightarrow> nat list \<Rightarrow> nat \<Rightarrow> nat \<Rightarrow> pyerr + char" where
  "get_ref store g r c = (case nth_e g r of Inl e \<Rightarrow> Inl e | Inr a \<Rightarrow> nth_e (store ! a) c)"

definition set_ref :: "char list list \<Rightarrow> nat list \<Rightarrow> nat \<Rightarrow> nat \<Rightarrow> char \<Rightarrow> pyerr + char list list" where
  "set_ref store g r c v =
     (case nth_e g r of Inl e \<Rightarrow> Inl e
      | Inr a \<Rightarrow> (case upd_e (store ! a) c v of Inl e \<Rightarrow> Inl e
                  | Inr rw' \<Rightarrow> Inr (store[a := rw'])))"

text \<open>
  One pass of the body of the two loops of \<^verbatim>\<open>check_diagonal\<close>, on the store and the
  list \<^verbatim>\<open>letters\<close>.  The cell is written before \<^verbatim>\<open>letters.remove\<close> is tried.
\<close>

definition diagonal_cell :: "nat list \<Rightarrow> nat \<times> nat \<Rightarrow> char list list \<times> char list
      \<Rightarrow> (char list list \<times> char list) \<times> pyerr option" where
  "diagonal_cell g rc st =
     (case rc of (row, col) \<Rightarrow> case st of (store, lets) \<Rightarrow>
        (case get_ref store g row col of
           Inl e \<Rightarrow> (st, Some e)
         | Inr a \<Rightarrow>
             (case get_ref store g col row of
                Inl e \<Rightarrow> (st, Some e)
              | Inr b \<Rightarrow>
                  if isalpha a \<and> b = CHR ''-'' then
                    (case set_ref store g col row a of
                       Inl e \<Rightarrow> (st, Some e)
                     | Inr store' \<Rightarrow>
                         (case remove_e lets a of
                            Inl e \<Rightarrow> ((store', lets), Some e)
                          | Inr lets' \<Rightarrow> ((store', lets'), None)))
                  else if isalpha b \<and> a = CHR ''-'' then
                    (case set_ref store g row col b of
                       Inl e \<Rightarrow> (st, Some e)
                     | Inr store' \<Rightarrow>
                         (case remove_e lets b of
                            Inl e \<Rightarrow> ((store', lets), Some e)
                          | Inr lets' \<Rightarrow> ((store', lets'), None)))
                  else (st, None))))"

text \<open>
  \<^verbatim>\<open>check_diagonal(grid, letters)\<close>: the returned grid is the copied outer list, that is
  the same addresses; a ValueError is caught and answered by \<^verbatim>\<open>letters.clear()\<close>; any
  other exception leaves the function.  The result is the store and the list
  \<^verbatim>\<open>letters\<close> as they are afterwards, and the exception if one left.
\<close>

definition check_diagonal :: "char list list \<Rightarrow> nat list \<Rightarrow> char list
      \<Rightarrow> (char list list \<times> char list) \<times> pyerr option" where
  "check_diagonal store g lets =
     (case loopS (diagonal_cell g) all_cells (store, lets) of
        (st, None) \<Rightarrow> (st, None)
      | ((store', lets'), Some e) \<Rightarrow>
          if e = ValueError then ((store', []), None) else ((store', lets'), Some e))"

subsection \<open>The checks and updates of one row\<close>

text \<open>\<^verbatim>\<open>check_singles(row, word)\<close>.\<close>

definition check_singles :: "char list \<Rightarrow> nat \<Rightarrow> string \<Rightarrow> bool" where
  "check_singles sing row word =
     (\<forall>pos \<in> set [0..<length word]. \<not> (word ! pos \<in> set sing \<and> pos \<noteq> row))"

text \<open>\<^verbatim>\<open>get_letters(word, letters, row, pattern)\<close>.\<close>

definition get_letters :: "string \<Rightarrow> char list \<Rightarrow> nat \<Rightarrow> string \<Rightarrow> pyerr + char list" where
  "get_letters word lets row pattern =
     foldE (\<lambda>i new_letters.
              case nth_e word i of Inl e \<Rightarrow> Inl e
              | Inr w \<Rightarrow>
                  (case nth_e pattern i of Inl e \<Rightarrow> Inl e
                   | Inr p \<Rightarrow>
                       if w \<noteq> p then
                         (case remove_e new_letters w of Inl e \<Rightarrow> Inl e
                          | Inr nl \<Rightarrow> if i \<noteq> row then remove_e nl w else Inr nl)
                       else Inr new_letters))
           [0..<5] lets"

text \<open>
  \<^verbatim>\<open>Solver.check_pattern(row, word, letters, pattern)\<close>.  Its last loop returns at the
  first letter that is used too often.
\<close>

fun too_many :: "char list \<Rightarrow> char list \<Rightarrow> nat list \<Rightarrow> pyerr + bool" where
  "too_many word lets [] = Inr True"
| "too_many word lets (i # is) =
     (case nth_e word i of Inl e \<Rightarrow> Inl e
      | Inr c \<Rightarrow> if isalpha c \<and> count_list word c > count_list lets c then Inr False
                 else too_many word lets is)"

definition solver_check_pattern :: "nat \<Rightarrow> string \<Rightarrow> char list \<Rightarrow> string \<Rightarrow> pyerr + bool" where
  "solver_check_pattern row word lets pattern =
     (case foldE (\<lambda>i w. case nth_e w i of Inl e \<Rightarrow> Inl e
                        | Inr c \<Rightarrow> (case nth_e pattern i of Inl e \<Rightarrow> Inl e
                                    | Inr p \<Rightarrow> if c = p then upd_e w i CHR ''-'' else Inr w))
             [0..<5] word of
        Inl e \<Rightarrow> Inl e
      | Inr w \<Rightarrow>
          (let w2 = w @ w in
           case nth_e w2 row of Inl e \<Rightarrow> Inl e
           | Inr c \<Rightarrow> (case remove_e w2 c of Inl e \<Rightarrow> Inl e
                       | Inr w3 \<Rightarrow> too_many w3 lets [0..<5])))"

text \<open>\<^verbatim>\<open>get_pattern(row, solution)\<close>.\<close>

definition get_pattern :: "nat \<Rightarrow> grid \<Rightarrow> pyerr + string" where
  "get_pattern row solution = nth_e solution row"

text \<open>\<^verbatim>\<open>set_word(word, row, solution)\<close>.\<close>

definition set_word :: "string \<Rightarrow> nat \<Rightarrow> grid \<Rightarrow> pyerr + grid" where
  "set_word word row solution =
     foldE (\<lambda>i sol. case nth_e word i of Inl e \<Rightarrow> Inl e
                    | Inr w \<Rightarrow> (case set_cell sol row i w of Inl e \<Rightarrow> Inl e
                                | Inr sol' \<Rightarrow> set_cell sol' i row w))
           [0..<5] solution"

text \<open>
  \<^verbatim>\<open>transpose(lst)\<close> is \<^verbatim>\<open>[list(i) for i in zip(*lst)]\<close>: \<^verbatim>\<open>zip\<close> stops with the
  shortest row, and gives nothing for no rows.
\<close>

definition transpose_py :: "'a list list \<Rightarrow> 'a list list" where
  "transpose_py lst =
     (case lst of [] \<Rightarrow> []
      | r # rs \<Rightarrow> map (\<lambda>j. map (\<lambda>rw. rw ! j) lst) [0..<foldl min (length r) (map length rs)])"

text \<open>\<^verbatim>\<open>check_muddle(muddle)\<close>.\<close>

definition check_muddle :: "grid \<Rightarrow> bool" where
  "check_muddle muddle =
     (if \<exists>sublist \<in> set muddle. CHR ''-'' \<in> set sublist then False
      else (let t_muddle = transpose_py muddle
            in length muddle = length t_muddle \<and> (\<forall>rw \<in> set muddle. rw \<in> set t_muddle)))"

text \<open>
  The loops at the head of \<^verbatim>\<open>traverse\<close> that put the cells from \<^verbatim>\<open>row\<close> on back to
  \<^verbatim>\<open>init_grid\<close>.
\<close>

definition reset_cells :: "grid \<Rightarrow> nat \<Rightarrow> grid \<Rightarrow> pyerr + grid" where
  "reset_cells init row solution =
     foldE (\<lambda>(rw, col) sol.
              if rw \<ge> row \<and> col \<ge> row
              then (case get_cell init rw col of Inl e \<Rightarrow> Inl e | Inr v \<Rightarrow> set_cell sol rw col v)
              else Inr sol)
           all_cells solution"

subsection \<open>\<^verbatim>\<open>traverse\<close>, \<^verbatim>\<open>try_grid\<close> and \<^verbatim>\<open>solve\<close>\<close>

text \<open>
  \<^verbatim>\<open>traverse(row, letters, solution)\<close> reads \<^verbatim>\<open>self.graph\<close>, \<^verbatim>\<open>self.init_grid\<close> and
  \<^verbatim>\<open>self.singles\<close>, appends to \<^verbatim>\<open>self.solutions\<close> and writes into the grid
  \<^verbatim>\<open>solution\<close> it shares with its caller.  The rows of \<^verbatim>\<open>solution\<close> are always fresh
  copies, so nothing it writes reaches \<^verbatim>\<open>init_grid\<close>, which is passed as the grid
  \<open>init\<close>.  The function returns the grid \<^verbatim>\<open>solution\<close> and the list
  \<^verbatim>\<open>self.solutions\<close> as they are when the call returns, or the exception that left it.
  The copy \<^verbatim>\<open>letters[:]\<close> handed to \<^verbatim>\<open>find_lett_patt\<close> is dropped after the call.
  \<open>traverse_words\<close> is the final loop \<^verbatim>\<open>for word in possibles\<close>; at row 0 it
  rebinds \<^verbatim>\<open>solution\<close> to a fresh copy of \<^verbatim>\<open>init_grid\<close> for every word.
\<close>

function traverse :: "node \<Rightarrow> grid \<Rightarrow> char list \<Rightarrow> nat \<Rightarrow> char list \<Rightarrow> grid \<Rightarrow> solution list
      \<Rightarrow> pyerr + grid \<times> solution list"
  and traverse_words :: "node \<Rightarrow> grid \<Rightarrow> char list \<Rightarrow> nat \<Rightarrow> char list \<Rightarrow> string \<Rightarrow> string list
      \<Rightarrow> grid \<Rightarrow> solution list \<Rightarrow> pyerr + grid \<times> solution list" where
  "traverse g init sing row lets solution sols =
     (if row > 4 \<and> check_muddle solution then Inr (solution, sols @ [Grid solution])
      else
        (case reset_cells init row solution of
           Inl e \<Rightarrow> Inl e
         | Inr solution1 \<Rightarrow>
             (case get_pattern row solution1 of
                Inl e \<Rightarrow> Inl e
              | Inr pattern \<Rightarrow>
                  (case iterate (snd (find_lett_patt g lets pattern)) of
                     Inl e \<Rightarrow> Inl e
                   | Inr possibles \<Rightarrow>
                       (case filterE (\<lambda>word. solver_check_pattern row word lets pattern)
                               (filter (check_singles sing row) possibles) of
                          Inl e \<Rightarrow> Inl e
                        | Inr possibles' \<Rightarrow>
                            traverse_words g init sing row lets pattern possibles'
                              solution1 sols)))))"
| "traverse_words g init sing row lets pattern [] solution sols = Inr (solution, sols)"
| "traverse_words g init sing row lets pattern (word # possibles) solution sols =
     (case set_word word row (if row = 0 then init else solution) of
        Inl e \<Rightarrow> Inl e
      | Inr solution1 \<Rightarrow>
          (case get_letters word lets row pattern of
             Inl e \<Rightarrow> Inl e
           | Inr new_letters \<Rightarrow>
               (case traverse g init sing (row + 1) new_letters solution1 sols of
                  Inl e \<Rightarrow> Inl e
                | Inr (solution2, sols2) \<Rightarrow>
                    traverse_words g init sing row lets pattern possibles solution2 sols2)))"
  by pat_completeness auto

text \<open>
  \<^verbatim>\<open>try_grid\<close> and \<^verbatim>\<open>solve\<close>.  \<^verbatim>\<open>check_diagonal\<close> works on the list object
  \<^verbatim>\<open>self.letters\<close> itself and on the rows of \<^verbatim>\<open>self.start_grid\<close>; the local
  \<^verbatim>\<open>solution\<close> is a list of copies of the rows of \<^verbatim>\<open>init_grid\<close>.  The result is the
  object afterwards and what \<^verbatim>\<open>solve\<close> returns, or the exception that left it.
\<close>

definition try_grid :: "solver \<Rightarrow> solver \<times> (pyerr + solution list)" where
  "try_grid s =
     (case check_diagonal (rows s) (start_grid s) (letters s) of
        ((store', lets'), Some e) \<Rightarrow> (s\<lparr>letters := lets', rows := store'\<rparr>, Inl e)
      | ((store', lets'), None) \<Rightarrow>
          (let s' = s\<lparr>letters := lets', rows := store', init_grid := start_grid s\<rparr>
           in if lets' = [] then (s', Inr [Sentinel ''ERROR''])
              else (let init = grid_of store' (init_grid s')
                    in case traverse (graph s') init (singles s') 0 lets' init [] of
                         Inl e \<Rightarrow> (s', Inl e)
                       | Inr (solution, sols) \<Rightarrow> (s', Inr sols))))"

definition solve :: "solver \<Rightarrow> solver \<times> (pyerr + solution list)" where
  "solve s = try_grid s"

subsection \<open>Vocabulary of the statements about the solver\<close>

text \<open>A grid of five rows of five cells.\<close>

definition wf_grid :: "grid \<Rightarrow> bool" where
  "wf_grid g \<longleftrightarrow> length g = 5 \<and> (\<forall>rw \<in> set g. length rw = 5)"

text \<open>\<^verbatim>\<open>grid[r][c] == grid[c][r]\<close> for all \<open>r\<close>, \<open>c\<close> in 0..4.\<close>

definition symmetric :: "grid \<Rightarrow> bool" where
  "symmetric g \<longleftrightarrow> (\<forall>r<5. \<forall>c<5. g ! r ! c = g ! c ! r)"

text \<open>No cell is the wildcard.\<close>

definition no_wildcard :: "grid \<Rightarrow> bool" where
  "no_wildcard g \<longleftrightarrow> (\<forall>rw \<in> set g. CHR ''-'' \<notin> set rw)"

text \<open>A grid with one cell replaced.\<close>

definition cell_upd :: "grid \<Rightarrow> nat \<Rightarrow> nat \<Rightarrow> char \<Rightarrow> grid" where
  "cell_upd g r c v = g[r := (g ! r)[c := v]]"

text \<open>
  A property \<open>Inv k\<close> of the grid \<^verbatim>\<open>solution\<close> that holds for \<^verbatim>\<open>init_grid\<close> at
  \<open>k = 0\<close>, survives the reset at row \<open>k\<close>, and is carried from \<open>k\<close> to \<open>k + 1\<close>
  when \<^verbatim>\<open>set_word\<close> writes at row \<open>k\<close> a word of five letters that has passed
  \<^verbatim>\<open>check_singles\<close>.
\<close>

definition search_invariant :: "grid \<Rightarrow> char list \<Rightarrow> (nat \<Rightarrow> grid \<Rightarrow> bool) \<Rightarrow> bool" where
  "search_invariant init sing Inv \<longleftrightarrow>
     Inv 0 init
     \<and> (\<forall>k sol. Inv (Suc k) sol \<longrightarrow> Inv k sol)
     \<and> (\<forall>k sol sol'. k < 5 \<and> wf_grid sol \<and> Inv k sol \<and> reset_cells init k sol = Inr sol'
           \<longrightarrow> Inv k sol')
     \<and> (\<forall>k w sol sol'. k < 5 \<and> wf_grid sol \<and> Inv k sol \<and> length w = 5 \<and> check_singles sing k w
             \<and> set_word w k sol = Inr sol'
           \<longrightarrow> Inv (Suc k) sol')"

subsection \<open>A small lexicon and a problem for the examples\<close>

text \<open>
  A node from which the letters of one word lead, one edge each, to a terminal node, and a
  graph whose root has the single edge \<^verbatim>\<open>"+"\<close> to a node that starts each of the given
  words (words with different first letters).
\<close>

fun chain :: "string \<Rightarrow> node" where
  "chain [] = Node [] True"
| "chain (c # cs) = Node [(c, chain cs)] False"

definition forward_graph :: "string list \<Rightarrow> node" where
  "forward_graph ws = Node [(CHR ''+'', Node (map (\<lambda>w. (hd w, chain (tl w))) ws) False)] False"

text \<open>A \<^verbatim>\<open>Solver\<close> as \<^verbatim>\<open>__init__\<close> leaves it, with the given graph loaded.\<close>

definition new_solver :: "node \<Rightarrow> solver" where
  "new_solver g = \<lparr>graph = g, letters = [], occurrences = [], rows = [], start_grid = [],
                   init_grid = [], singles = [], even = [], odd = []\<rparr>"

definition square_words :: "string list" where
  "square_words = [''heart'', ''ember'', ''abuse'', ''resin'', ''trend'']"

definition empty_pattern :: "string list" where
  "empty_pattern = [''-----'', ''-----'', ''-----'', ''-----'', ''-----'']"

text \<open>
  No letter that the frequency table \<^verbatim>\<open>occurrences\<close> counts exactly once stands off the
  main diagonal.
\<close>

definition singles_on_diagonal :: "(char \<times> nat) list \<Rightarrow> grid \<Rightarrow> bool" where
  "singles_on_diagonal occ g \<longleftrightarrow> (\<forall>r<5. \<forall>c<5. r \<noteq> c \<longrightarrow> map_of occ (g ! r ! c) \<noteq> Some 1)"

text \<open>
  The rows of a grid are five separate objects of the store, each with five cells.
\<close>

definition good_store :: "char list list \<Rightarrow> nat list \<Rightarrow> bool" where
  "good_store store g \<longleftrightarrow>
     wf_grid (grid_of store g) \<and> distinct g \<and> (\<forall>a \<in> set g. a < length store)"


definition mirror_rack :: "string list" where
  "mirror_rack = [''heart'', ''ember'', ''bbuse'', ''resin'', ''trend'']"

text \<open>
  What diagonal normalization asks of the pool: the filled cells that hold the letter \<open>x\<close>
  and have an empty mirror partner, and their number.  Each of them costs the pool one
  \<open>x\<close>.  The pool suffices when it has that many of every letter of the grid.
\<close>

definition open_cells :: "grid \<Rightarrow> char \<Rightarrow> (nat \<times> nat) set" where
  "open_cells g x =
     set (filter (\<lambda>(r, c). isalpha (g ! r ! c) \<and> g ! r ! c = x \<and> g ! c ! r = CHR ''-'') all_cells)"

definition mirror_demand :: "grid \<Rightarrow> char \<Rightarrow> nat" where
  "mirror_demand g x =
     length (filter (\<lambda>(r, c). isalpha (g ! r ! c) \<and> g ! r ! c = x \<and> g ! c ! r = CHR ''-'') all_cells)"




text \<open>
  Three more problems.  Two filled cells with empty partners hold \<^verbatim>\<open>a\<close> and the pool has
  one \<^verbatim>\<open>a\<close> left, which the first of them takes.  Two filled cells with empty partners
  hold \<^verbatim>\<open>b\<close> and \<^verbatim>\<open>a\<close>, and the pool has no \<^verbatim>\<open>b\<close>.  A rack of letters that the
  solved square does not use.
\<close>

definition spent_pattern :: "string list" where
  "spent_pattern = [''--aa-'', ''-----'', ''-----'', ''-----'', ''-----'']"

definition spent_rack :: "string list" where
  "spent_rack = [''heart'', ''ember'', ''abusa'', ''resin'', ''trend'']"



definition spare_rack :: "string list" where
  "spare_rack = [''zzzzz'', ''zzzzz'', ''zzzzz'', ''zzzzz'', ''zzzzz'']"

text \<open>Termination: the rows left below \<open>row\<close>, then the words left in the loop.\<close>

lemma foldE_invariant:
  assumes "foldE f xs s = Inr s'" and "P s"
    and "\<And>x t t'. x \<in> set xs \<Longrightarrow> P t \<Longrightarrow> f x t = Inr t' \<Longrightarrow> P t'"
  shows "P s'"
  using assms
proof (induction xs arbitrary: s)
  case Nil
  then show ?case by simp
next
  case (Cons x xs)
  from Cons.prems(1) obtain t where t: "f x s = Inr t" and rest: "foldE f xs t = Inr s'"
    by (auto split: sum.splits)
  have "P t" using Cons.prems(3)[of x s t] Cons.prems(2) t by simp
  show ?case
    by (rule Cons.IH[OF rest \<open>P t\<close>]) (use Cons.prems(3) in auto)
qed

lemma set_cell_length: "set_cell g r c v = Inr g' \<Longrightarrow> length g' = length g"
  by (auto simp: set_cell_def nth_e_def upd_e_def split: sum.splits if_splits)

lemma reset_cells_length:
  assumes "reset_cells init row solution = Inr solution'"
  shows "length solution' = length solution"
  using assms unfolding reset_cells_def
  by (rule foldE_invariant[where P = "\<lambda>t. length t = length solution"])
     (auto split: sum.splits if_splits simp: set_cell_length)

lemma set_word_length:
  assumes "set_word word row solution = Inr solution'"
  shows "length solution' = length solution"
  using assms unfolding set_word_def
  by (rule foldE_invariant[where P = "\<lambda>t. length t = length solution"])
     (auto split: sum.splits simp: set_cell_length)

lemma set_word_row_less:
  assumes "set_word word row solution = Inr solution'"
  shows "row < length solution"
proof -
  have "[0..<5] = 0 # [1..<5]" by (simp add: upt_rec)
  with assms show ?thesis
    by (auto simp: set_word_def set_cell_def nth_e_def split: sum.splits if_splits)
qed

lemma traverse_dom_length:
  "traverse_traverse_words_dom (Inl (g, init, sing, row, lets, solution, sols)) \<Longrightarrow>
     traverse g init sing row lets solution sols = Inr (solution', sols') \<Longrightarrow>
     max (length solution') (length init) \<le> max (length solution) (length init)"
  "traverse_traverse_words_dom (Inr (g, init, sing, row, lets, pattern, possibles, solution, sols)) \<Longrightarrow>
     traverse_words g init sing row lets pattern possibles solution sols = Inr (solution', sols') \<Longrightarrow>
     max (length solution') (length init) \<le> max (length solution) (length init)"
proof (induction g init sing row lets solution sols and g init sing row lets pattern possibles solution sols
       arbitrary: solution' sols' and solution' sols' rule: traverse_traverse_words.pinduct)
  case (1 g init sing row lets solution sols)
  show ?case
  proof (cases "row > 4 \<and> check_muddle solution")
    case True
    with "1.prems" "1.hyps" show ?thesis by (simp add: traverse.psimps)
  next
    case False
    with "1.prems" "1.hyps" obtain solution1 pattern possibles possibles'
      where a: "reset_cells init row solution = Inr solution1"
        and b: "get_pattern row solution1 = Inr pattern"
        and c: "iterate (snd (find_lett_patt g lets pattern)) = Inr possibles"
        and d: "filterE (\<lambda>word. solver_check_pattern row word lets pattern)
                  (filter (check_singles sing row) possibles) = Inr possibles'"
        and e: "traverse_words g init sing row lets pattern possibles' solution1 sols = Inr (solution', sols')"
      by (auto simp: traverse.psimps split: sum.splits)
    from "1.IH"[OF False a b c d e] reset_cells_length[OF a] show ?thesis by simp
  qed
next
  case (2 g init sing row lets pattern solution sols)
  then show ?case by (simp add: traverse_words.psimps)
next
  case (3 g init sing row lets pattern word possibles solution sols)
  from "3.prems" "3.hyps" obtain solution1 new_letters solution2 sols2
    where a: "set_word word row (if row = 0 then init else solution) = Inr solution1"
      and b: "get_letters word lets row pattern = Inr new_letters"
      and c: "traverse g init sing (row + 1) new_letters solution1 sols = Inr (solution2, sols2)"
      and d: "traverse_words g init sing row lets pattern possibles solution2 sols2 = Inr (solution', sols')"
    by (auto simp: traverse_words.psimps split: sum.splits)
  from "3.IH"(1)[OF a b c] "3.IH"(2)[OF a b c refl d] set_word_length[OF a]
  show ?case by (auto split: if_splits)
qed

termination traverse
proof (relation "inv_image (less_than <*lex*> less_than)
         (\<lambda>x. case x of
            Inl (g, init, sing, row, lets, solution, sols) \<Rightarrow>
              (2 * (max (length solution) (length init) - row) + 1, 0)
          | Inr (g, init, sing, row, lets, pattern, possibles, solution, sols) \<Rightarrow>
              (2 * (max (length solution) (length init) - row), length possibles))",
       goal_cases)
  case 1
  show ?case by (intro wf_inv_image wf_lex_prod wf_less_than)
next
  case (2 g init sing row lets solution sols solution1 pattern possibles possibles')
  then show ?case by (simp add: reset_cells_length)
next
  case (3 g init sing row lets pattern word possibles solution sols solution1 new_letters)
  have "length solution1 = length (if row = 0 then init else solution)"
    by (rule set_word_length[OF 3(1)])
  moreover have "row < length (if row = 0 then init else solution)"
    by (rule set_word_row_less[OF 3(1)])
  ultimately have "max (length solution1) (length init) \<le> max (length solution) (length init)"
    and "row < max (length solution1) (length init)"
    by (simp_all split: if_splits)
  then have "2 * (max (length solution1) (length init) - (row + 1)) + 1
               < 2 * (max (length solution) (length init) - row)"
    by arith
  then show ?case by simp
next
  case (4 g init sing row lets pattern word possibles solution sols solution1
      new_letters x solution2 sols2)
  from traverse_dom_length(1)[OF 4(5)] 4(3,4) set_word_length[OF 4(1)]
  show ?case by (auto split: if_splits)
qed

text \<open>The equation of \<open>traverse\<close> has no pattern on its left: it is unfolded by hand.\<close>

declare traverse.simps [simp del]

section \<open>Shape of the grids\<close>

lemma wf_grid_nth: "wf_grid g \<Longrightarrow> r < 5 \<Longrightarrow> length (g ! r) = 5"
  by (auto simp: wf_grid_def)

lemma set_cell_wf:
  assumes "wf_grid g" "r < 5" "c < 5"
  shows "set_cell g r c v = Inr (cell_upd g r c v)"
  using assms by (simp add: set_cell_def nth_e_def upd_e_def wf_grid_def cell_upd_def)

lemma cell_upd_wf:
  assumes "wf_grid g"
  shows "wf_grid (cell_upd g r c v)"
proof (cases "r < length g")
  case True
  have "length rw = 5" if "rw \<in> set (g[r := (g ! r)[c := v]])" for rw
  proof -
    from that have "rw = (g ! r)[c := v] \<or> rw \<in> set g"
      using set_update_subset_insert[of g r "(g ! r)[c := v]"] by auto
    then show ?thesis using assms True by (auto simp: wf_grid_def)
  qed
  then show ?thesis using assms by (simp add: wf_grid_def cell_upd_def)
next
  case False
  then have "g[r := (g ! r)[c := v]] = g" by (simp add: list_update_beyond)
  then show ?thesis using assms by (simp add: cell_upd_def)
qed

lemma cell_upd_same:
  assumes "wf_grid g" "r < 5" "c < 5"
  shows "cell_upd g r c v ! r ! c = v"
  using assms wf_grid_nth[OF assms(1,2)] by (simp add: wf_grid_def cell_upd_def)

lemma cell_upd_other:
  assumes "r' \<noteq> r \<or> c' \<noteq> c"
  shows "cell_upd g r c v ! r' ! c' = g ! r' ! c'"
proof (cases "r' = r")
  case True
  with assms have "c' \<noteq> c" by simp
  then show ?thesis using True
    by (cases "r < length g") (simp_all add: cell_upd_def list_update_beyond)
next
  case False
  then show ?thesis by (simp add: cell_upd_def)
qed

lemma get_cell_wf: "wf_grid g \<Longrightarrow> r < 5 \<Longrightarrow> c < 5 \<Longrightarrow> get_cell g r c = Inr (g ! r ! c)"
  by (simp add: get_cell_def nth_e_def wf_grid_def)

text \<open>What \<^verbatim>\<open>set_word\<close> leaves in a five by five grid, cell by cell.\<close>

lemma set_word_loop:
  assumes "wf_grid sol" "length word = 5" "row < 5" "set is \<subseteq> {0..<5}"
  shows "\<exists>sol'. foldE (\<lambda>i sol. case nth_e word i of Inl e \<Rightarrow> Inl e
                    | Inr w \<Rightarrow> (case set_cell sol row i w of Inl e \<Rightarrow> Inl e
                                | Inr sol' \<Rightarrow> set_cell sol' i row w)) is sol = Inr sol'
           \<and> wf_grid sol'
           \<and> (\<forall>i \<in> set is. sol' ! row ! i = word ! i \<and> sol' ! i ! row = word ! i)
           \<and> (\<forall>r c. \<not> (r = row \<and> c \<in> set is) \<longrightarrow> \<not> (c = row \<and> r \<in> set is)
                  \<longrightarrow> sol' ! r ! c = sol ! r ! c)"
  using assms
proof (induction "is" arbitrary: sol)
  case Nil
  then show ?case by simp
next
  case (Cons i "is")
  let ?f = "\<lambda>i sol. case nth_e word i of Inl e \<Rightarrow> Inl e
                    | Inr w \<Rightarrow> (case set_cell sol row i w of Inl e \<Rightarrow> Inl e
                                | Inr sol' \<Rightarrow> set_cell sol' i row w)"
  from Cons.prems have i: "i < 5" by simp
  define s1 where "s1 = cell_upd sol row i (word ! i)"
  define s2 where "s2 = cell_upd s1 i row (word ! i)"
  have wf1: "wf_grid s1" unfolding s1_def by (rule cell_upd_wf[OF Cons.prems(1)])
  have wf2: "wf_grid s2" unfolding s2_def by (rule cell_upd_wf[OF wf1])
  have c1: "set_cell sol row i (word ! i) = Inr s1"
    unfolding s1_def by (rule set_cell_wf[OF Cons.prems(1) Cons.prems(3) i])
  have c2: "set_cell s1 i row (word ! i) = Inr s2"
    unfolding s2_def by (rule set_cell_wf[OF wf1 i Cons.prems(3)])
  have step: "?f i sol = Inr s2"
    using i Cons.prems(2) c1 c2 by (simp add: nth_e_def)
  have a: "s2 ! i ! row = word ! i"
    unfolding s2_def by (rule cell_upd_same[OF wf1 i Cons.prems(3)])
  have b: "s2 ! row ! i = word ! i"
  proof (cases "row = i")
    case True
    then show ?thesis using a by simp
  next
    case False
    then have "s2 ! row ! i = s1 ! row ! i" unfolding s2_def by (intro cell_upd_other) simp
    also have "\<dots> = word ! i" unfolding s1_def by (rule cell_upd_same[OF Cons.prems(1) Cons.prems(3) i])
    finally show ?thesis .
  qed
  have other: "s2 ! r ! c = sol ! r ! c" if "\<not> (r = row \<and> c = i)" "\<not> (c = row \<and> r = i)" for r c
  proof -
    have "s2 ! r ! c = s1 ! r ! c" unfolding s2_def using that(2) by (intro cell_upd_other) blast
    also have "\<dots> = sol ! r ! c" unfolding s1_def using that(1) by (intro cell_upd_other) blast
    finally show ?thesis .
  qed
  from Cons.prems(4) have sub: "set is \<subseteq> {0..<5}" by simp
  from Cons.IH[OF wf2 Cons.prems(2) Cons.prems(3) sub]
  obtain sol' where rest: "foldE ?f is s2 = Inr sol'" and wf: "wf_grid sol'"
    and w: "\<forall>j \<in> set is. sol' ! row ! j = word ! j \<and> sol' ! j ! row = word ! j"
    and o: "\<forall>r c. \<not> (r = row \<and> c \<in> set is) \<longrightarrow> \<not> (c = row \<and> r \<in> set is)
                  \<longrightarrow> sol' ! r ! c = s2 ! r ! c"
    by blast
  have fold: "foldE ?f (i # is) sol = Inr sol'" using step rest by simp
  have w': "sol' ! row ! j = word ! j \<and> sol' ! j ! row = word ! j" if "j \<in> set (i # is)" for j
  proof (cases "j \<in> set is")
    case True
    then show ?thesis using w by blast
  next
    case False
    with that have j: "j = i" by simp
    with False have ni: "i \<notin> set is" by simp
    have "sol' ! row ! i = s2 ! row ! i" using o[rule_format, of row i] ni by metis
    moreover have "sol' ! i ! row = s2 ! i ! row" using o[rule_format, of i row] ni by metis
    ultimately show ?thesis using a b j by simp
  qed
  have o': "sol' ! r ! c = sol ! r ! c"
    if "\<not> (r = row \<and> c \<in> set (i # is))" "\<not> (c = row \<and> r \<in> set (i # is))" for r c
  proof -
    from that have "sol' ! r ! c = s2 ! r ! c" using o by auto
    also from that have "\<dots> = sol ! r ! c" by (intro other) auto
    finally show ?thesis .
  qed
  from fold wf w' o' show ?case by blast
qed

lemma set_word_wf:
  assumes "wf_grid sol" "length word = 5" "row < 5"
  shows "\<exists>sol'. set_word word row sol = Inr sol' \<and> wf_grid sol'
           \<and> (\<forall>i<5. sol' ! row ! i = word ! i \<and> sol' ! i ! row = word ! i)
           \<and> (\<forall>r c. r \<noteq> row \<longrightarrow> c \<noteq> row \<longrightarrow> sol' ! r ! c = sol ! r ! c)"
proof -
  have "set [0..<5::nat] \<subseteq> {0..<5}" by simp
  from set_word_loop[OF assms this] show ?thesis
    unfolding set_word_def by (auto simp del: upt_Suc)
qed

text \<open>What the reset at the head of \<^verbatim>\<open>traverse\<close> leaves, cell by cell.\<close>

lemma reset_loop:
  assumes "wf_grid init" "wf_grid sol" "set ps \<subseteq> {0..<5} \<times> {0..<5}"
  shows "\<exists>sol'. foldE (\<lambda>(rw, col) sol.
              if rw \<ge> row \<and> col \<ge> row
              then (case get_cell init rw col of Inl e \<Rightarrow> Inl e | Inr v \<Rightarrow> set_cell sol rw col v)
              else Inr sol) ps sol = Inr sol'
           \<and> wf_grid sol'
           \<and> (\<forall>r c. (r, c) \<in> set ps \<longrightarrow> r \<ge> row \<longrightarrow> c \<ge> row \<longrightarrow> sol' ! r ! c = init ! r ! c)
           \<and> (\<forall>r c. \<not> ((r, c) \<in> set ps \<and> r \<ge> row \<and> c \<ge> row) \<longrightarrow> sol' ! r ! c = sol ! r ! c)"
  using assms
proof (induction ps arbitrary: sol)
  case Nil
  then show ?case by simp
next
  case (Cons p ps)
  let ?f = "\<lambda>(rw, col) sol.
              if rw \<ge> row \<and> col \<ge> row
              then (case get_cell init rw col of Inl e \<Rightarrow> Inl e | Inr v \<Rightarrow> set_cell sol rw col v)
              else Inr sol"
  obtain a b where p: "p = (a, b)" by (cases p)
  with Cons.prems have ab: "a < 5" "b < 5" by simp_all
  define s1 where "s1 = (if a \<ge> row \<and> b \<ge> row then cell_upd sol a b (init ! a ! b) else sol)"
  have step: "?f p sol = Inr s1"
    unfolding s1_def using p get_cell_wf[OF Cons.prems(1) ab] set_cell_wf[OF Cons.prems(2) ab] by simp
  have wf1: "wf_grid s1"
    unfolding s1_def using cell_upd_wf[OF Cons.prems(2)] Cons.prems(2) by simp
  have hit: "s1 ! a ! b = init ! a ! b" if "a \<ge> row" "b \<ge> row"
    unfolding s1_def using that cell_upd_same[OF Cons.prems(2) ab] by simp
  have miss: "s1 ! r ! c = sol ! r ! c" if "\<not> ((r, c) = (a, b) \<and> a \<ge> row \<and> b \<ge> row)" for r c
  proof (cases "a \<ge> row \<and> b \<ge> row")
    case True
    with that have "r \<noteq> a \<or> c \<noteq> b" by simp
    then have "cell_upd sol a b (init ! a ! b) ! r ! c = sol ! r ! c" by (rule cell_upd_other)
    then show ?thesis unfolding s1_def using True by simp
  next
    case False
    then have "s1 = sol" unfolding s1_def by (simp only: if_False)
    then show ?thesis by simp
  qed
  from Cons.prems(3) have sub: "set ps \<subseteq> {0..<5} \<times> {0..<5}" by simp
  from Cons.IH[OF Cons.prems(1) wf1 sub]
  obtain sol' where rest: "foldE ?f ps s1 = Inr sol'" and wf: "wf_grid sol'"
    and h: "\<forall>r c. (r, c) \<in> set ps \<longrightarrow> r \<ge> row \<longrightarrow> c \<ge> row \<longrightarrow> sol' ! r ! c = init ! r ! c"
    and m: "\<forall>r c. \<not> ((r, c) \<in> set ps \<and> r \<ge> row \<and> c \<ge> row) \<longrightarrow> sol' ! r ! c = s1 ! r ! c"
    by blast
  have fold: "foldE ?f (p # ps) sol = Inr sol'" using step rest by simp
  have h': "sol' ! r ! c = init ! r ! c" if "(r, c) \<in> set (p # ps)" "r \<ge> row" "c \<ge> row" for r c
  proof (cases "(r, c) \<in> set ps")
    case True
    then show ?thesis using h that by blast
  next
    case False
    with that p have rc: "r = a" "c = b" by simp_all
    have "sol' ! r ! c = s1 ! r ! c" using m False by blast
    then show ?thesis using hit that rc by simp
  qed
  have m': "sol' ! r ! c = sol ! r ! c" if "\<not> ((r, c) \<in> set (p # ps) \<and> r \<ge> row \<and> c \<ge> row)" for r c
  proof -
    from that have "sol' ! r ! c = s1 ! r ! c" using m by auto
    also from that p have "\<dots> = sol ! r ! c" by (intro miss) auto
    finally show ?thesis .
  qed
  from fold wf h' m' show ?case by blast
qed

lemma set_all_cells: "set all_cells = {0..<5} \<times> {0..<5}"
  by (auto simp: all_cells_def)

lemma reset_cells_wf:
  assumes "wf_grid init" "wf_grid sol"
  shows "\<exists>sol'. reset_cells init row sol = Inr sol' \<and> wf_grid sol'
           \<and> (\<forall>r<5. \<forall>c<5. r \<ge> row \<longrightarrow> c \<ge> row \<longrightarrow> sol' ! r ! c = init ! r ! c)
           \<and> (\<forall>r c. \<not> (r \<ge> row \<and> c \<ge> row) \<longrightarrow> sol' ! r ! c = sol ! r ! c)"
proof -
  have "set all_cells \<subseteq> {0..<5} \<times> {0..<5}" by (simp add: set_all_cells)
  from reset_loop[OF assms this, of row] obtain sol'
    where "reset_cells init row sol = Inr sol'" "wf_grid sol'"
      and h: "\<forall>r c. (r, c) \<in> set all_cells \<longrightarrow> r \<ge> row \<longrightarrow> c \<ge> row \<longrightarrow> sol' ! r ! c = init ! r ! c"
      and m: "\<forall>r c. \<not> ((r, c) \<in> set all_cells \<and> r \<ge> row \<and> c \<ge> row) \<longrightarrow> sol' ! r ! c = sol ! r ! c"
    unfolding reset_cells_def by blast
  moreover have "\<forall>r<5. \<forall>c<5. r \<ge> row \<longrightarrow> c \<ge> row \<longrightarrow> sol' ! r ! c = init ! r ! c"
    using h by (simp add: set_all_cells)
  moreover have "\<forall>r c. \<not> (r \<ge> row \<and> c \<ge> row) \<longrightarrow> sol' ! r ! c = sol ! r ! c"
    using m by blast
  ultimately show ?thesis by blast
qed

section \<open>What the search keeps true\<close>

text \<open>Every word of the query matches the pattern, so it is as long as the pattern.\<close>

lemma crawl_find_lett_patt_checked:
  "crawl_find_lett_patt n partial_word lets pattern wrapped found = Inr found' \<Longrightarrow>
     (\<forall>w \<in> set found. check_pattern w pattern) \<Longrightarrow> (\<forall>w \<in> set found'. check_pattern w pattern)"
  "crawl_find_lett_patt_edges es partial_word lets pattern wrapped found = Inr found' \<Longrightarrow>
     (\<forall>w \<in> set found. check_pattern w pattern) \<Longrightarrow> (\<forall>w \<in> set found'. check_pattern w pattern)"
proof (induction n partial_word lets pattern wrapped found
         and es partial_word lets pattern wrapped found
       arbitrary: found' and found' rule: crawl_find_lett_patt_crawl_find_lett_patt_edges.induct)
  case (1 es e partial_word lets pattern wrapped found)
  show ?case
  proof (rule "1.IH")
    show "crawl_find_lett_patt_edges es partial_word lets pattern wrapped
            (if e \<and> partial_word \<notin> set found \<and> check_pattern partial_word pattern
             then found @ [partial_word] else found) = Inr found'"
      using "1.prems"(1) by simp
    show "\<forall>w\<in>set (if e \<and> partial_word \<notin> set found \<and> check_pattern partial_word pattern
             then found @ [partial_word] else found). check_pattern w pattern"
      using "1.prems"(2) by simp
  qed
next
  case (2 partial_word lets pattern wrapped found)
  then show ?case by simp
next
  case (3 c next_node es partial_word lets pattern wrapped found)
  show ?case
  proof (cases "c = CHR ''+''")
    case True
    with "3.prems"(1) obtain f1
      where a: "crawl_find_lett_patt next_node partial_word lets pattern True found = Inr f1"
        and b: "crawl_find_lett_patt_edges es partial_word lets pattern wrapped f1 = Inr found'"
      by (auto split: sum.splits)
    from "3.IH"(1)[OF True a "3.prems"(2)] have "\<forall>w\<in>set f1. check_pattern w pattern" .
    from "3.IH"(2)[OF True a b this] show ?thesis .
  next
    case False
    show ?thesis
    proof (cases "c \<in> set lets \<and> length partial_word < length pattern")
      case True
      with False "3.prems"(1) obtain new_letters f1
        where n: "get_newlist c lets (lets \<noteq> []) = Inr new_letters"
          and a: "crawl_find_lett_patt next_node
                    (if wrapped then partial_word @ [c] else c # partial_word)
                    new_letters pattern wrapped found = Inr f1"
          and b: "crawl_find_lett_patt_edges es partial_word lets pattern wrapped f1 = Inr found'"
        by (auto split: sum.splits)
      from "3.IH"(3)[OF False True n a "3.prems"(2)] have "\<forall>w\<in>set f1. check_pattern w pattern" .
      from "3.IH"(4)[OF False True n a b this] show ?thesis .
    next
      case no: False
      with False "3.prems"(1)
      have "crawl_find_lett_patt_edges es partial_word lets pattern wrapped found = Inr found'"
        by (auto split: sum.splits)
      from "3.IH"(5)[OF False no this "3.prems"(2)] show ?thesis .
    qed
  qed
qed

lemma find_lett_patt_length:
  assumes "iterate (snd (find_lett_patt g lets pattern)) = Inr possibles" "w \<in> set possibles"
  shows "length w = length pattern"
proof -
  from assms(1) have "crawl_find_lett_patt g [] (append_pattern_letters lets pattern) pattern False []
                        = Inr possibles"
    by (simp add: find_lett_patt_def Let_def)
  from crawl_find_lett_patt_checked(1)[OF this] assms(2) have "check_pattern w pattern" by simp
  then show ?thesis by (simp add: check_pattern_def split: if_splits)
qed

lemma filterE_subset: "filterE p xs = Inr ys \<Longrightarrow> set ys \<subseteq> set xs"
proof (induction xs arbitrary: ys)
  case Nil
  then show ?case by simp
next
  case (Cons x xs)
  then show ?case by (auto split: sum.splits if_splits)
qed

lemma search_invariant_init: "search_invariant init sing Inv \<Longrightarrow> Inv 0 init"
  unfolding search_invariant_def by (elim conjE)

lemma search_invariant_weaken: "search_invariant init sing Inv \<Longrightarrow> Inv (Suc k) sol \<Longrightarrow> Inv k sol"
  unfolding search_invariant_def by (elim conjE) (erule allE[of _ k], erule allE[of _ sol], simp)

lemma search_invariant_reset:
  assumes "search_invariant init sing Inv" "k < 5" "wf_grid sol" "Inv k sol"
    "reset_cells init k sol = Inr sol'"
  shows "Inv k sol'"
proof -
  from assms(1) have "\<forall>k sol sol'. k < 5 \<and> wf_grid sol \<and> Inv k sol \<and> reset_cells init k sol = Inr sol'
           \<longrightarrow> Inv k sol'"
    unfolding search_invariant_def by (elim conjE)
  then have "k < 5 \<and> wf_grid sol \<and> Inv k sol \<and> reset_cells init k sol = Inr sol' \<longrightarrow> Inv k sol'"
    by (elim allE)
  moreover have "k < 5 \<and> wf_grid sol \<and> Inv k sol \<and> reset_cells init k sol = Inr sol'"
    using assms(2-) by (intro conjI)
  ultimately show ?thesis by (rule mp)
qed

lemma search_invariant_word:
  assumes "search_invariant init sing Inv" "k < 5" "wf_grid sol" "Inv k sol" "length w = 5"
    "check_singles sing k w" "set_word w k sol = Inr sol'"
  shows "Inv (Suc k) sol'"
proof -
  from assms(1) have "\<forall>k w sol sol'. k < 5 \<and> wf_grid sol \<and> Inv k sol \<and> length w = 5
             \<and> check_singles sing k w \<and> set_word w k sol = Inr sol'
           \<longrightarrow> Inv (Suc k) sol'"
    unfolding search_invariant_def by (elim conjE)
  then have "k < 5 \<and> wf_grid sol \<and> Inv k sol \<and> length w = 5
             \<and> check_singles sing k w \<and> set_word w k sol = Inr sol' \<longrightarrow> Inv (Suc k) sol'"
    by (elim allE)
  moreover have "k < 5 \<and> wf_grid sol \<and> Inv k sol \<and> length w = 5
             \<and> check_singles sing k w \<and> set_word w k sol = Inr sol'"
    using assms(2-) by (intro conjI)
  ultimately show ?thesis by (rule mp)
qed

text \<open>
  The grids appended by a call of \<^verbatim>\<open>traverse\<close> are five by five, have passed
  \<^verbatim>\<open>check_muddle\<close> and satisfy the invariant at a row beyond the last.
\<close>

lemma traverse_search_invariant:
  "search_invariant init sing Inv \<Longrightarrow> wf_grid init \<Longrightarrow> wf_grid solution \<Longrightarrow> Inv row solution \<Longrightarrow>
     traverse g init sing row lets solution sols = Inr (solution', sols') \<Longrightarrow>
     wf_grid solution' \<and> Inv row solution' \<and>
     (\<forall>x \<in> set sols'. x \<in> set sols \<or>
        (\<exists>grid k. x = Grid grid \<and> wf_grid grid \<and> check_muddle grid \<and> 4 < k \<and> Inv k grid))"
  "search_invariant init sing Inv \<Longrightarrow> wf_grid init \<Longrightarrow> wf_grid solution \<Longrightarrow> Inv row solution \<Longrightarrow>
     row < 5 \<Longrightarrow> (\<forall>w \<in> set possibles. length w = 5 \<and> check_singles sing row w) \<Longrightarrow>
     traverse_words g init sing row lets pattern possibles solution sols = Inr (solution', sols') \<Longrightarrow>
     wf_grid solution' \<and> Inv row solution' \<and>
     (\<forall>x \<in> set sols'. x \<in> set sols \<or>
        (\<exists>grid k. x = Grid grid \<and> wf_grid grid \<and> check_muddle grid \<and> 4 < k \<and> Inv k grid))"
proof (induction g init sing row lets solution sols and g init sing row lets pattern possibles solution sols
       arbitrary: solution' sols' and solution' sols' rule: traverse_traverse_words.induct)
  case (1 g init sing row lets solution sols)
  note inv = "1.prems"(1) and wfi = "1.prems"(2) and wfs = "1.prems"(3) and ir = "1.prems"(4)
  show ?case
  proof (cases "row > 4 \<and> check_muddle solution")
    case True
    have "traverse g init sing row lets solution sols = Inr (solution, sols @ [Grid solution])"
      by (subst traverse.simps) (simp only: True if_True simp_thms)
    from "1.prems"(5)[unfolded this] have eq: "solution' = solution" "sols' = sols @ [Grid solution]"
      by auto
    have "x \<in> set sols \<or>
        (\<exists>grid k. x = Grid grid \<and> wf_grid grid \<and> check_muddle grid \<and> 4 < k \<and> Inv k grid)"
      if "x \<in> set sols'" for x
    proof (cases "x \<in> set sols")
      case True
      then show ?thesis by simp
    next
      case False
      with that eq(2) have "x = Grid solution" by simp
      with True wfs ir
      have "x = Grid solution \<and> wf_grid solution \<and> check_muddle solution \<and> 4 < row \<and> Inv row solution"
        by simp
      then show ?thesis by blast
    qed
    with wfs ir eq(1) show ?thesis by simp
  next
    case False
    from reset_cells_wf[OF wfi wfs, of row] obtain solution1
      where a: "reset_cells init row solution = Inr solution1" and wf1: "wf_grid solution1"
      by blast
    have "traverse g init sing row lets solution sols =
            (case get_pattern row solution1 of
                Inl e \<Rightarrow> Inl e
              | Inr pattern \<Rightarrow>
                  (case iterate (snd (find_lett_patt g lets pattern)) of
                     Inl e \<Rightarrow> Inl e
                   | Inr possibles \<Rightarrow>
                       (case filterE (\<lambda>word. solver_check_pattern row word lets pattern)
                               (filter (check_singles sing row) possibles) of
                          Inl e \<Rightarrow> Inl e
                        | Inr possibles' \<Rightarrow>
                            traverse_words g init sing row lets pattern possibles'
                              solution1 sols)))"
      by (subst traverse.simps) (simp only: False if_False a sum.case simp_thms)
    with "1.prems"(5) have unf: "(case get_pattern row solution1 of
                Inl e \<Rightarrow> Inl e
              | Inr pattern \<Rightarrow>
                  (case iterate (snd (find_lett_patt g lets pattern)) of
                     Inl e \<Rightarrow> Inl e
                   | Inr possibles \<Rightarrow>
                       (case filterE (\<lambda>word. solver_check_pattern row word lets pattern)
                               (filter (check_singles sing row) possibles) of
                          Inl e \<Rightarrow> Inl e
                        | Inr possibles' \<Rightarrow>
                            traverse_words g init sing row lets pattern possibles'
                              solution1 sols))) = Inr (solution', sols')"
      by simp
    have row: "row < 5"
    proof (rule ccontr)
      assume "\<not> row < 5"
      with wf1 have "get_pattern row solution1 = Inl IndexError"
        by (simp add: get_pattern_def nth_e_def wf_grid_def)
      with unf show False by simp
    qed
    with wf1 have b: "get_pattern row solution1 = Inr (solution1 ! row)"
      and len: "length (solution1 ! row) = 5"
      by (simp_all add: get_pattern_def nth_e_def wf_grid_def)
    from unf b obtain possibles possibles'
      where c: "iterate (snd (find_lett_patt g lets (solution1 ! row))) = Inr possibles"
        and d: "filterE (\<lambda>word. solver_check_pattern row word lets (solution1 ! row))
                  (filter (check_singles sing row) possibles) = Inr possibles'"
        and e: "traverse_words g init sing row lets (solution1 ! row) possibles' solution1 sols
                  = Inr (solution', sols')"
      by (auto split: sum.splits)
    have i1: "Inv row solution1"
      by (rule search_invariant_reset[OF inv row wfs ir a])
    have words: "\<forall>w \<in> set possibles'. length w = 5 \<and> check_singles sing row w"
    proof
      fix w assume "w \<in> set possibles'"
      with filterE_subset[OF d] have "w \<in> set possibles" "check_singles sing row w" by auto
      with find_lett_patt_length[OF c] len show "length w = 5 \<and> check_singles sing row w" by simp
    qed
    from "1.IH"[OF False a b c d inv wfi wf1 i1 row words e] show ?thesis .
  qed
next
  case (2 g init sing row lets pattern solution sols)
  then show ?case by simp
next
  case (3 g init sing row lets pattern word possibles solution sols)
  note inv = "3.prems"(1) and wfi = "3.prems"(2) and wfs = "3.prems"(3) and ir = "3.prems"(4)
    and row = "3.prems"(5)
  let ?s0 = "if row = 0 then init else solution"
  have wf0: "wf_grid ?s0" using wfi wfs by simp
  have i0: "Inv row ?s0"
  proof (cases "row = 0")
    case True
    then show ?thesis using search_invariant_init[OF inv] by simp
  next
    case False
    then show ?thesis using ir by simp
  qed
  from "3.prems"(6) have w: "length word = 5" "check_singles sing row word" by simp_all
  from set_word_wf[OF wf0 w(1) row] obtain solution1
    where a: "set_word word row ?s0 = Inr solution1" and wf1: "wf_grid solution1"
    by blast
  have i1: "Inv (Suc row) solution1"
    by (rule search_invariant_word[OF inv row wf0 i0 w a])
  from a "3.prems"(7) obtain new_letters solution2 sols2
    where b: "get_letters word lets row pattern = Inr new_letters"
      and c: "traverse g init sing (row + 1) new_letters solution1 sols = Inr (solution2, sols2)"
      and d: "traverse_words g init sing row lets pattern possibles solution2 sols2
                = Inr (solution', sols')"
    by (auto split: sum.splits)
  from "3.IH"(1)[OF a b inv wfi wf1 _ c] i1
  have r1: "wf_grid solution2" "Inv (Suc row) solution2"
    and s1: "\<forall>x \<in> set sols2. x \<in> set sols \<or>
        (\<exists>grid k. x = Grid grid \<and> wf_grid grid \<and> check_muddle grid \<and> 4 < k \<and> Inv k grid)"
    by simp_all
  have i2: "Inv row solution2" by (rule search_invariant_weaken[OF inv r1(2)])
  from "3.prems"(6) have rest: "\<forall>w \<in> set possibles. length w = 5 \<and> check_singles sing row w"
    by simp
  from "3.IH"(2)[OF a b c refl inv wfi r1(1) i2 row rest d]
  have r2: "wf_grid solution'" "Inv row solution'"
    and s2: "\<forall>x \<in> set sols'. x \<in> set sols2 \<or>
        (\<exists>grid k. x = Grid grid \<and> wf_grid grid \<and> check_muddle grid \<and> 4 < k \<and> Inv k grid)"
    by simp_all
  from s1 s2 have "\<forall>x \<in> set sols'. x \<in> set sols \<or>
        (\<exists>grid k. x = Grid grid \<and> wf_grid grid \<and> check_muddle grid \<and> 4 < k \<and> Inv k grid)"
    by blast
  with r2 show ?case by simp
qed

section \<open>From \<^verbatim>\<open>set_problem\<close> to the search\<close>

lemma grid_of_append_fresh: "grid_of (xs @ ys) [length xs..<length xs + length ys] = ys"
  by (rule nth_equalityI) (simp_all add: grid_of_def nth_append)

lemma set_problem_grid:
  "grid_of (rows (set_problem s rack patterns)) (start_grid (set_problem s rack patterns))
     = map (map lower) patterns"
proof -
  have "grid_of (rows s @ map (map lower) patterns)
          [length (rows s)..<length (rows s) + length (map (map lower) patterns)]
        = map (map lower) patterns"
    by (rule grid_of_append_fresh)
  then show ?thesis by (simp add: set_problem_def Let_def split: prod.splits)
qed

lemma set_problem_wf:
  assumes "length patterns = 5" "\<forall>p \<in> set patterns. length p = 5"
  shows "wf_grid (grid_of (rows (set_problem s rack patterns)) (start_grid (set_problem s rack patterns)))"
  using assms unfolding set_problem_grid by (simp add: wf_grid_def)

lemma loopS_invariant:
  assumes "loopS f xs s = (s', r)" and "P s"
    and "\<And>x t t' r. x \<in> set xs \<Longrightarrow> P t \<Longrightarrow> f x t = (t', r) \<Longrightarrow> P t'"
  shows "P s'"
  using assms
proof (induction xs arbitrary: s)
  case Nil
  then show ?case by simp
next
  case (Cons x xs)
  obtain t e where t: "f x s = (t, e)" by (cases "f x s")
  have pt: "P t" using Cons.prems(3)[of x s t e] Cons.prems(2) t by simp
  show ?case
  proof (cases e)
    case None
    with t Cons.prems(1) have "loopS f xs t = (s', r)" by simp
    then show ?thesis by (rule Cons.IH[OF _ pt]) (use Cons.prems(3) in auto)
  next
    case (Some err)
    with t Cons.prems(1) have "s' = t" by simp
    with pt show ?thesis by simp
  qed
qed

lemma map_length_update:
  "length x = length (store ! a) \<Longrightarrow> map length (store[a := x]) = map length store"
proof (cases "a < length store")
  case True
  assume "length x = length (store ! a)"
  with True show ?thesis by (intro nth_equalityI) (simp_all add: nth_list_update)
next
  case False
  then show ?thesis by (simp add: list_update_beyond)
qed

lemma set_ref_lengths: "set_ref store g r c v = Inr store' \<Longrightarrow> map length store' = map length store"
  by (auto simp: set_ref_def nth_e_def upd_e_def map_length_update split: sum.splits if_splits)

lemma diagonal_cell_lengths:
  assumes "diagonal_cell g rc (store, lets) = ((store', lets'), r)"
  shows "map length store' = map length store"
proof -
  obtain row col where rc: "rc = (row, col)" by (cases rc)
  from assms show ?thesis
    unfolding diagonal_cell_def rc
    by (auto split: sum.splits if_splits dest: set_ref_lengths)
qed

lemma check_diagonal_lengths:
  assumes "check_diagonal store g lets = ((store', lets'), r)"
  shows "map length store' = map length store"
proof -
  obtain st e where l: "loopS (diagonal_cell g) all_cells (store, lets) = (st, e)"
    by (cases "loopS (diagonal_cell g) all_cells (store, lets)")
  have "map length (fst st) = map length store"
    by (rule loopS_invariant[OF l, where P = "\<lambda>t. map length (fst t) = map length store"])
       (auto dest: diagonal_cell_lengths)
  moreover from assms l have "store' = fst st"
    by (auto simp: check_diagonal_def split: option.splits prod.splits if_splits)
  ultimately show ?thesis by simp
qed

lemma wf_grid_same_lengths:
  assumes "wf_grid (grid_of store g)" "map length store' = map length store"
    and "\<forall>a \<in> set g. a < length store"
  shows "wf_grid (grid_of store' g)"
proof -
  have "length (store' ! a) = length (store ! a)" if "a \<in> set g" for a
    using assms(2,3) that by (metis length_map nth_map)
  with assms(1) show ?thesis by (simp add: wf_grid_def grid_of_def)
qed

lemma set_problem_valid:
  "\<forall>a \<in> set (start_grid (set_problem s rack patterns)). a < length (rows (set_problem s rack patterns))"
  by (simp add: set_problem_def Let_def split: prod.splits)

lemma check_muddle_no_wildcard: "check_muddle g \<Longrightarrow> no_wildcard g"
  unfolding check_muddle_def no_wildcard_def by (meson)

text \<open>The two instances of the invariant of the search.\<close>

lemma symmetric_search_invariant:
  assumes "wf_grid init"
  shows "search_invariant init sing (\<lambda>k sol. \<forall>r<5. \<forall>c<5. r < k \<or> c < k \<longrightarrow> sol ! r ! c = sol ! c ! r)"
proof -
  have i0: "\<forall>r<5. \<forall>c<5. r < (0::nat) \<or> c < (0::nat) \<longrightarrow> init ! r ! c = init ! c ! r" by simp
  have weaken: "\<forall>k sol. (\<forall>r<5. \<forall>c<5. r < Suc k \<or> c < Suc k \<longrightarrow> sol ! r ! c = sol ! c ! r) \<longrightarrow> (\<forall>r<5. \<forall>c<5. r < k \<or> c < k \<longrightarrow> sol ! r ! c = sol ! c ! r)"
    by (meson less_Suc_eq)
  have reset: "\<forall>k sol sol'. k < 5 \<and> wf_grid sol \<and> (\<forall>r<5. \<forall>c<5. r < k \<or> c < k \<longrightarrow> sol ! r ! c = sol ! c ! r)
                 \<and> reset_cells init k sol = Inr sol' \<longrightarrow> (\<forall>r<5. \<forall>c<5. r < k \<or> c < k \<longrightarrow> sol' ! r ! c = sol' ! c ! r)"
  proof (rule allI, rule allI, rule allI, rule impI)
    fix k :: nat and sol sol' :: grid
    assume a: "k < 5 \<and> wf_grid sol \<and> (\<forall>r<5. \<forall>c<5. r < k \<or> c < k \<longrightarrow> sol ! r ! c = sol ! c ! r) \<and> reset_cells init k sol = Inr sol'"
    then have wf: "wf_grid sol" and r: "reset_cells init k sol = Inr sol'"
      and i: "\<forall>r<5. \<forall>c<5. r < k \<or> c < k \<longrightarrow> sol ! r ! c = sol ! c ! r" by simp_all
    from reset_cells_wf[OF assms wf, of k] r
    have keep: "\<forall>r c. \<not> (r \<ge> k \<and> c \<ge> k) \<longrightarrow> sol' ! r ! c = sol ! r ! c" by auto
    show "\<forall>r<5. \<forall>c<5. r < k \<or> c < k \<longrightarrow> sol' ! r ! c = sol' ! c ! r"
    proof (intro allI impI)
      fix r c assume rc: "r < 5" "c < 5" "r < k \<or> c < k"
      then have "\<not> (r \<ge> k \<and> c \<ge> k)" "\<not> (c \<ge> k \<and> r \<ge> k)" by auto
      with keep have "sol' ! r ! c = sol ! r ! c" "sol' ! c ! r = sol ! c ! r" by blast+
      moreover from i rc have "sol ! r ! c = sol ! c ! r" by blast
      ultimately show "sol' ! r ! c = sol' ! c ! r" by simp
    qed
  qed
  have word: "\<forall>k w sol sol'. k < 5 \<and> wf_grid sol \<and> (\<forall>r<5. \<forall>c<5. r < k \<or> c < k \<longrightarrow> sol ! r ! c = sol ! c ! r) \<and> length w = 5
                 \<and> check_singles sing k w \<and> set_word w k sol = Inr sol' \<longrightarrow> (\<forall>r<5. \<forall>c<5. r < Suc k \<or> c < Suc k \<longrightarrow> sol' ! r ! c = sol' ! c ! r)"
  proof (rule allI, rule allI, rule allI, rule allI, rule impI)
    fix k :: nat and w :: string and sol sol' :: grid
    assume a: "k < 5 \<and> wf_grid sol \<and> (\<forall>r<5. \<forall>c<5. r < k \<or> c < k \<longrightarrow> sol ! r ! c = sol ! c ! r) \<and> length w = 5
                 \<and> check_singles sing k w \<and> set_word w k sol = Inr sol'"
    then have k: "k < 5" and wf: "wf_grid sol" and len: "length w = 5"
      and cs: "check_singles sing k w" and s: "set_word w k sol = Inr sol'"
      and i: "\<forall>r<5. \<forall>c<5. r < k \<or> c < k \<longrightarrow> sol ! r ! c = sol ! c ! r" by simp_all
    from cs len have single: "w ! pos \<notin> set sing" if "pos < 5" "pos \<noteq> k" for pos
      using that by (auto simp: check_singles_def simp del: upt_Suc)
    from set_word_wf[OF wf len k] s
    have line: "\<forall>i<5. sol' ! k ! i = w ! i \<and> sol' ! i ! k = w ! i"
      and keep: "\<forall>r c. r \<noteq> k \<longrightarrow> c \<noteq> k \<longrightarrow> sol' ! r ! c = sol ! r ! c" by auto
    show "\<forall>r<5. \<forall>c<5. r < Suc k \<or> c < Suc k \<longrightarrow> sol' ! r ! c = sol' ! c ! r"
    proof (intro allI impI)
      fix r c assume rc: "r < 5" "c < 5" "r < Suc k \<or> c < Suc k"
      show "sol' ! r ! c = sol' ! c ! r"
      proof (cases "r = k")
        case True
        with line rc(2) show ?thesis by metis
      next
        case rk: False
        show ?thesis
        proof (cases "c = k")
          case True
          with line rc(1) show ?thesis by metis
        next
          case ck: False
          from rk ck rc(3) have "r < k \<or> c < k" by arith
          with i rc have "sol ! r ! c = sol ! c ! r" by blast
          moreover from keep rk ck have "sol' ! r ! c = sol ! r ! c" "sol' ! c ! r = sol ! c ! r"
            by blast+
          ultimately show ?thesis by simp
        qed
      qed
    qed
  qed
  show ?thesis
    unfolding search_invariant_def by (intro conjI) (rule i0, rule weaken, rule reset, rule word)
qed

lemma singles_search_invariant:
  assumes "wf_grid init"
  shows "search_invariant init sing (\<lambda>k sol. \<forall>r<5. \<forall>c<5. r \<noteq> c \<and> (r < k \<or> c < k) \<longrightarrow> sol ! r ! c \<notin> set sing)"
proof -
  have i0: "\<forall>r<5. \<forall>c<5. r \<noteq> c \<and> (r < (0::nat) \<or> c < (0::nat)) \<longrightarrow> init ! r ! c \<notin> set sing" by simp
  have weaken: "\<forall>k sol. (\<forall>r<5. \<forall>c<5. r \<noteq> c \<and> (r < Suc k \<or> c < Suc k) \<longrightarrow> sol ! r ! c \<notin> set sing) \<longrightarrow> (\<forall>r<5. \<forall>c<5. r \<noteq> c \<and> (r < k \<or> c < k) \<longrightarrow> sol ! r ! c \<notin> set sing)"
    by (meson less_Suc_eq)
  have reset: "\<forall>k sol sol'. k < 5 \<and> wf_grid sol \<and> (\<forall>r<5. \<forall>c<5. r \<noteq> c \<and> (r < k \<or> c < k) \<longrightarrow> sol ! r ! c \<notin> set sing)
                 \<and> reset_cells init k sol = Inr sol' \<longrightarrow> (\<forall>r<5. \<forall>c<5. r \<noteq> c \<and> (r < k \<or> c < k) \<longrightarrow> sol' ! r ! c \<notin> set sing)"
  proof (rule allI, rule allI, rule allI, rule impI)
    fix k :: nat and sol sol' :: grid
    assume a: "k < 5 \<and> wf_grid sol \<and> (\<forall>r<5. \<forall>c<5. r \<noteq> c \<and> (r < k \<or> c < k) \<longrightarrow> sol ! r ! c \<notin> set sing) \<and> reset_cells init k sol = Inr sol'"
    then have wf: "wf_grid sol" and r: "reset_cells init k sol = Inr sol'"
      and i: "\<forall>r<5. \<forall>c<5. r \<noteq> c \<and> (r < k \<or> c < k) \<longrightarrow> sol ! r ! c \<notin> set sing" by simp_all
    from reset_cells_wf[OF assms wf, of k] r
    have keep: "\<forall>r c. \<not> (r \<ge> k \<and> c \<ge> k) \<longrightarrow> sol' ! r ! c = sol ! r ! c" by auto
    show "\<forall>r<5. \<forall>c<5. r \<noteq> c \<and> (r < k \<or> c < k) \<longrightarrow> sol' ! r ! c \<notin> set sing"
    proof (intro allI impI)
      fix r c assume rc: "r < 5" "c < 5" "r \<noteq> c \<and> (r < k \<or> c < k)"
      then have "\<not> (r \<ge> k \<and> c \<ge> k)" "\<not> (c \<ge> k \<and> r \<ge> k)" by auto
      with keep have "sol' ! r ! c = sol ! r ! c" "sol' ! c ! r = sol ! c ! r" by blast+
      moreover from i rc have "sol ! r ! c \<notin> set sing" by blast
      ultimately show "sol' ! r ! c \<notin> set sing" by simp
    qed
  qed
  have word: "\<forall>k w sol sol'. k < 5 \<and> wf_grid sol \<and> (\<forall>r<5. \<forall>c<5. r \<noteq> c \<and> (r < k \<or> c < k) \<longrightarrow> sol ! r ! c \<notin> set sing) \<and> length w = 5
                 \<and> check_singles sing k w \<and> set_word w k sol = Inr sol' \<longrightarrow> (\<forall>r<5. \<forall>c<5. r \<noteq> c \<and> (r < Suc k \<or> c < Suc k) \<longrightarrow> sol' ! r ! c \<notin> set sing)"
  proof (rule allI, rule allI, rule allI, rule allI, rule impI)
    fix k :: nat and w :: string and sol sol' :: grid
    assume a: "k < 5 \<and> wf_grid sol \<and> (\<forall>r<5. \<forall>c<5. r \<noteq> c \<and> (r < k \<or> c < k) \<longrightarrow> sol ! r ! c \<notin> set sing) \<and> length w = 5
                 \<and> check_singles sing k w \<and> set_word w k sol = Inr sol'"
    then have k: "k < 5" and wf: "wf_grid sol" and len: "length w = 5"
      and cs: "check_singles sing k w" and s: "set_word w k sol = Inr sol'"
      and i: "\<forall>r<5. \<forall>c<5. r \<noteq> c \<and> (r < k \<or> c < k) \<longrightarrow> sol ! r ! c \<notin> set sing" by simp_all
    from cs len have single: "w ! pos \<notin> set sing" if "pos < 5" "pos \<noteq> k" for pos
      using that by (auto simp: check_singles_def simp del: upt_Suc)
    from set_word_wf[OF wf len k] s
    have line: "\<forall>i<5. sol' ! k ! i = w ! i \<and> sol' ! i ! k = w ! i"
      and keep: "\<forall>r c. r \<noteq> k \<longrightarrow> c \<noteq> k \<longrightarrow> sol' ! r ! c = sol ! r ! c" by auto
    show "\<forall>r<5. \<forall>c<5. r \<noteq> c \<and> (r < Suc k \<or> c < Suc k) \<longrightarrow> sol' ! r ! c \<notin> set sing"
    proof (intro allI impI)
      fix r c assume rc: "r < 5" "c < 5" "r \<noteq> c \<and> (r < Suc k \<or> c < Suc k)"
      show "sol' ! r ! c \<notin> set sing"
      proof (cases "r = k")
        case True
        with rc have "c \<noteq> k" by simp
        from single[OF rc(2) this] line rc(2) True show ?thesis by metis
      next
        case rk: False
        show ?thesis
        proof (cases "c = k")
          case True
          from single[OF rc(1) rk] line rc(1) True show ?thesis by metis
        next
          case ck: False
          from rk ck rc(3) have "r \<noteq> c \<and> (r < k \<or> c < k)" by arith
          with i rc have "sol ! r ! c \<notin> set sing" by blast
          moreover from keep rk ck have "sol' ! r ! c = sol ! r ! c" "sol' ! c ! r = sol ! c ! r"
            by blast+
          ultimately show ?thesis by simp
        qed
      qed
    qed
  qed
  show ?thesis
    unfolding search_invariant_def by (intro conjI) (rule i0, rule weaken, rule reset, rule word)
qed

text \<open>Every grid in the list returned by \<^verbatim>\<open>solve\<close> was appended by the search.\<close>

lemma solve_grids:
  assumes wf: "wf_grid (grid_of (rows s) (start_grid s))"
    and valid: "\<forall>a \<in> set (start_grid s). a < length (rows s)"
    and run: "solve s = (s', Inr sols)" and g: "Grid g \<in> set sols"
    and inv: "\<And>init. wf_grid init \<Longrightarrow> search_invariant init (singles s) Inv"
  shows "\<exists>k>4. wf_grid g \<and> check_muddle g \<and> Inv k g"
proof -
  obtain store' lets' e where cd: "check_diagonal (rows s) (start_grid s) (letters s) = ((store', lets'), e)"
    by (metis prod.exhaust)
  from run cd have e: "e = None"
    by (cases e) (simp_all add: solve_def try_grid_def)
  define init where "init = grid_of store' (start_grid s)"
  have wfi: "wf_grid init"
    unfolding init_def
    by (rule wf_grid_same_lengths[OF wf check_diagonal_lengths[OF cd] valid])
  from g have ne: "sols \<noteq> [Sentinel ''ERROR'']" by auto
  from run cd e ne obtain solution
    where t: "traverse (graph s) init (singles s) 0 lets' init [] = Inr (solution, sols)"
    by (auto simp: solve_def try_grid_def Let_def init_def split: if_splits sum.splits)
  have i0: "Inv 0 init" by (rule search_invariant_init[OF inv[OF wfi]])
  from traverse_search_invariant(1)[OF inv[OF wfi] wfi wfi i0 t] g
  have "\<exists>grid k. Grid g = Grid grid \<and> wf_grid grid \<and> check_muddle grid \<and> 4 < k \<and> Inv k grid"
    by auto
  then show ?thesis by auto
qed

section \<open>The grids that \<^verbatim>\<open>solve\<close> returns\<close>

lemma wf_grid_lower: "wf_grid patterns \<Longrightarrow> wf_grid (map (map lower) patterns)"
  by (simp add: wf_grid_def)

lemma solve_snd: "snd (solve s) = r \<Longrightarrow> solve s = (fst (solve s), r)"
  by (simp add: prod_eq_iff)

lemma classify_singles:
  "set (fst (classify items (sing, ev, od))) = set sing \<union> {l. (l, 1) \<in> set items}"
proof (induction items arbitrary: sing ev od)
  case Nil
  show ?case by simp
next
  case (Cons p items)
  obtain l no where p: "p = (l, no)" by (cases p)
  show ?case
  proof (cases "no = 1")
    case True
    then show ?thesis using Cons.IH[of "sing @ [l]" ev "od @ [l]"] p by auto
  next
    case False
    then show ?thesis
      using Cons.IH[of sing ev "od @ [l]"] Cons.IH[of sing "ev @ [l]" od] p by auto
  qed
qed

lemma set_problem_singles:
  assumes "map_of (occurrences (set_problem s rack patterns)) x = Some 1"
  shows "x \<in> set (singles (set_problem s rack patterns))"
proof -
  define occ where "occ = count_occurrences [] (sort (map lower (concat rack)))"
  have o: "occurrences (set_problem s rack patterns) = occ"
    by (simp add: set_problem_def Let_def occ_def split: prod.splits)
  have "singles (set_problem s rack patterns) = fst (classify occ ([], [], []))"
    by (simp add: set_problem_def Let_def occ_def split: prod.splits)
  moreover from assms o have "(x, 1) \<in> set occ" by (simp add: map_of_SomeD)
  ultimately show ?thesis by (simp add: classify_singles)
qed

lemma solve_example:
  "snd (solve (set_problem (new_solver (forward_graph square_words)) square_words empty_pattern))
     = Inr [Grid square_words]"
  by code_simp

text \<open>
  Claim C1.  For every problem with a five by five pattern, every grid in the list that
  \<^verbatim>\<open>solve\<close> returns has \<^verbatim>\<open>grid[r][c] == grid[c][r]\<close> for all \<open>r\<close>, \<open>c\<close> in 0..4 and
  has no cell equal to the wildcard \<^verbatim>\<open>'-'\<close>.
\<close>

theorem solve_symmetric_no_wildcard:
  assumes "wf_grid patterns"
    and "snd (solve (set_problem s rack patterns)) = Inr sols"
    and "Grid g \<in> set sols"
  shows "symmetric g \<and> no_wildcard g"
proof -
  let ?s = "set_problem s rack patterns"
  have wf: "wf_grid (grid_of (rows ?s) (start_grid ?s))"
    unfolding set_problem_grid by (rule wf_grid_lower[OF assms(1)])
  from solve_grids[OF wf set_problem_valid solve_snd[OF assms(2)] assms(3),
      of "\<lambda>k sol. \<forall>r<5. \<forall>c<5. r < k \<or> c < k \<longrightarrow> sol ! r ! c = sol ! c ! r"]
    symmetric_search_invariant
  obtain k where k: "4 < k" and m: "check_muddle g"
    and i: "\<forall>r<5. \<forall>c<5. r < k \<or> c < k \<longrightarrow> g ! r ! c = g ! c ! r"
    by blast
  have "symmetric g"
    unfolding symmetric_def
  proof (intro allI impI)
    fix r c :: nat assume "r < 5" "c < 5"
    moreover from this k have "r < k" by simp
    ultimately show "g ! r ! c = g ! c ! r" using i by blast
  qed
  with check_muddle_no_wildcard[OF m] show ?thesis by simp
qed

theorem solve_symmetric_no_wildcard_witness:
  "wf_grid empty_pattern
   \<and> snd (solve (set_problem (new_solver (forward_graph square_words)) square_words empty_pattern))
       = Inr [Grid square_words]
   \<and> Grid square_words \<in> set [Grid square_words]
   \<and> symmetric square_words \<and> no_wildcard square_words"
proof -
  have a: "wf_grid empty_pattern" by (simp add: wf_grid_def empty_pattern_def)
  have b: "Grid square_words \<in> set [Grid square_words]" by simp
  from solve_symmetric_no_wildcard[OF a solve_example b] a solve_example b
  show ?thesis by simp
qed

text \<open>
  Claim C7.  For every problem with a five by five pattern, no grid in the list that
  \<^verbatim>\<open>solve\<close> returns has, at a cell \<open>(r, c)\<close> with \<open>r \<noteq> c\<close>, a letter whose count in the
  frequency table of the rack is exactly one.
\<close>

theorem solve_singles_on_diagonal:
  assumes "wf_grid patterns"
    and "snd (solve (set_problem s rack patterns)) = Inr sols"
    and "Grid g \<in> set sols"
  shows "singles_on_diagonal (occurrences (set_problem s rack patterns)) g"
proof -
  let ?s = "set_problem s rack patterns"
  have wf: "wf_grid (grid_of (rows ?s) (start_grid ?s))"
    unfolding set_problem_grid by (rule wf_grid_lower[OF assms(1)])
  from solve_grids[OF wf set_problem_valid solve_snd[OF assms(2)] assms(3),
      of "\<lambda>k sol. \<forall>r<5. \<forall>c<5. r \<noteq> c \<and> (r < k \<or> c < k) \<longrightarrow> sol ! r ! c \<notin> set (singles ?s)"]
    singles_search_invariant
  obtain k where k: "4 < k"
    and i: "\<forall>r<5. \<forall>c<5. r \<noteq> c \<and> (r < k \<or> c < k) \<longrightarrow> g ! r ! c \<notin> set (singles ?s)"
    by blast
  show ?thesis
    unfolding singles_on_diagonal_def
  proof (intro allI impI)
    fix r c :: nat assume rc: "r < 5" "c < 5" "r \<noteq> c"
    from rc k have "r < k" by simp
    with i rc have "g ! r ! c \<notin> set (singles ?s)" by blast
    with set_problem_singles show "map_of (occurrences ?s) (g ! r ! c) \<noteq> Some 1" by blast
  qed
qed

theorem solve_singles_on_diagonal_witness:
  "wf_grid empty_pattern
   \<and> snd (solve (set_problem (new_solver (forward_graph square_words)) square_words empty_pattern))
       = Inr [Grid square_words]
   \<and> Grid square_words \<in> set [Grid square_words]
   \<and> singles_on_diagonal
       (occurrences (set_problem (new_solver (forward_graph square_words)) square_words empty_pattern))
       square_words"
proof -
  have a: "wf_grid empty_pattern" by (simp add: wf_grid_def empty_pattern_def)
  have b: "Grid square_words \<in> set [Grid square_words]" by simp
  from solve_singles_on_diagonal[OF a solve_example b] a solve_example b
  show ?thesis by simp
qed

section \<open>The caller's list after \<^verbatim>\<open>find_lett_patt\<close>\<close>

lemma append_pattern_letters_filter:
  "append_pattern_letters lets pattern = lets @ filter isalpha pattern"
  by (induction pattern arbitrary: lets) simp_all

text \<open>
  Claim C9.  \<^verbatim>\<open>find_lett_patt(letters, pattern)\<close> changes the caller's list in place:
  when the call returns, before the generator is consumed, the list is the original one
  followed by one copy of every alphabetic character of the pattern, in the order of the
  pattern.
\<close>

theorem find_lett_patt_extends_letters:
  "fst (find_lett_patt root lets pattern) = lets @ filter isalpha pattern"
  by (simp add: find_lett_patt_def Let_def append_pattern_letters_filter)

theorem find_lett_patt_extends_letters_witness:
  "fst (find_lett_patt (forward_graph square_words) ''rta'' [CHR ''-'', CHR ''e'', CHR ''1'', CHR ''R'', CHR 0xE9])
     = [CHR ''r'', CHR ''t'', CHR ''a'', CHR ''e'', CHR ''R'', CHR 0xE9]"
proof -
  have "filter isalpha [CHR ''-'', CHR ''e'', CHR ''1'', CHR ''R'', CHR 0xE9]
          = [CHR ''e'', CHR ''R'', CHR 0xE9]"
    by code_simp
  with find_lett_patt_extends_letters[of "forward_graph square_words" "''rta''"
      "[CHR ''-'', CHR ''e'', CHR ''1'', CHR ''R'', CHR 0xE9]"]
  show ?thesis by simp
qed

section \<open>Diagonal normalization\<close>

lemma not_isalpha_dash: "\<not> isalpha CHR ''-''"
  by code_simp

lemma lower_dash: "lower CHR ''-'' = CHR ''-''"
  by code_simp

lemma alpha_chars_lower: "list_all (\<lambda>c. isalpha (lower c)) alpha_chars"
  by code_simp

lemma isalpha_lower: "isalpha c \<Longrightarrow> isalpha (lower c)"
  using alpha_chars_lower by (simp add: isalpha_def list_all_iff)

lemma set_problem_good:
  assumes "wf_grid patterns"
  shows "good_store (rows (set_problem s rack patterns)) (start_grid (set_problem s rack patterns))"
proof -
  have "wf_grid (grid_of (rows (set_problem s rack patterns)) (start_grid (set_problem s rack patterns)))"
    unfolding set_problem_grid by (rule wf_grid_lower[OF assms])
  moreover have "distinct (start_grid (set_problem s rack patterns))"
    by (simp add: set_problem_def Let_def split: prod.splits)
  ultimately show ?thesis using set_problem_valid by (simp add: good_store_def)
qed

lemma get_ref_good:
  assumes "good_store store g" "r < 5" "c < 5"
  shows "get_ref store g r c = Inr (grid_of store g ! r ! c)"
proof -
  from assms have "r < length g" "length (store ! (g ! r)) = 5"
    by (auto simp: good_store_def wf_grid_def grid_of_def)
  with assms(3) show ?thesis by (simp add: get_ref_def nth_e_def grid_of_def)
qed

lemma set_ref_good:
  assumes "good_store store g" "r < 5" "c < 5"
  shows "\<exists>store'. set_ref store g r c v = Inr store'
           \<and> grid_of store' g = cell_upd (grid_of store g) r c v \<and> good_store store' g"
proof -
  from assms have lr: "r < length g" and lc: "length (store ! (g ! r)) = 5"
    and d: "distinct g" and valid: "\<forall>a \<in> set g. a < length store"
    by (auto simp: good_store_def wf_grid_def grid_of_def)
  define store' where "store' = store[g ! r := (store ! (g ! r))[c := v]]"
  have s: "set_ref store g r c v = Inr store'"
    using lr lc assms(3) by (simp add: set_ref_def nth_e_def upd_e_def store'_def)
  have g: "grid_of store' g = cell_upd (grid_of store g) r c v"
  proof (rule nth_equalityI)
    show "length (grid_of store' g) = length (cell_upd (grid_of store g) r c v)"
      by (simp add: grid_of_def cell_upd_def)
  next
    fix i assume "i < length (grid_of store' g)"
    then have i: "i < length g" by (simp add: grid_of_def)
    show "grid_of store' g ! i = cell_upd (grid_of store g) r c v ! i"
    proof (cases "i = r")
      case True
      with i valid show ?thesis by (simp add: grid_of_def cell_upd_def store'_def)
    next
      case False
      with d i lr have "g ! i \<noteq> g ! r" by (simp add: nth_eq_iff_index_eq)
      with i False show ?thesis by (simp add: grid_of_def cell_upd_def store'_def)
    qed
  qed
  have "wf_grid (grid_of store' g)"
    unfolding g using assms(1) by (simp add: good_store_def cell_upd_wf)
  with d valid have "good_store store' g" by (simp add: good_store_def store'_def)
  with s g show ?thesis by blast
qed

text \<open>The three things one pass of the loop body can do, read on the grid.\<close>

lemma diagonal_cell_fill:
  assumes "good_store store g" "r < 5" "c < 5"
    and "isalpha (grid_of store g ! r ! c)" "grid_of store g ! c ! r = CHR ''-''"
  shows "\<exists>store'. grid_of store' g = cell_upd (grid_of store g) c r (grid_of store g ! r ! c)
           \<and> good_store store' g
           \<and> diagonal_cell g (r, c) (store, lets) =
               (if grid_of store g ! r ! c \<in> set lets
                then ((store', remove1 (grid_of store g ! r ! c) lets), None)
                else ((store', lets), Some ValueError))"
proof -
  from set_ref_good[OF assms(1) assms(3) assms(2), of "grid_of store g ! r ! c"]
  obtain store' where s: "set_ref store g c r (grid_of store g ! r ! c) = Inr store'"
    and g: "grid_of store' g = cell_upd (grid_of store g) c r (grid_of store g ! r ! c)"
    and ok: "good_store store' g" by blast
  have "diagonal_cell g (r, c) (store, lets) =
               (if grid_of store g ! r ! c \<in> set lets
                then ((store', remove1 (grid_of store g ! r ! c) lets), None)
                else ((store', lets), Some ValueError))"
    using assms(4,5) s
    by (simp add: diagonal_cell_def get_ref_good[OF assms(1,2,3)] get_ref_good[OF assms(1,3,2)]
          remove_e_def)
  with g ok show ?thesis by blast
qed

lemma diagonal_cell_mirror:
  assumes "good_store store g" "r < 5" "c < 5"
    and "\<not> (isalpha (grid_of store g ! r ! c) \<and> grid_of store g ! c ! r = CHR ''-'')"
    and "isalpha (grid_of store g ! c ! r)" "grid_of store g ! r ! c = CHR ''-''"
  shows "\<exists>store'. grid_of store' g = cell_upd (grid_of store g) r c (grid_of store g ! c ! r)
           \<and> good_store store' g
           \<and> diagonal_cell g (r, c) (store, lets) =
               (if grid_of store g ! c ! r \<in> set lets
                then ((store', remove1 (grid_of store g ! c ! r) lets), None)
                else ((store', lets), Some ValueError))"
proof -
  from set_ref_good[OF assms(1) assms(2) assms(3), of "grid_of store g ! c ! r"]
  obtain store' where s: "set_ref store g r c (grid_of store g ! c ! r) = Inr store'"
    and g: "grid_of store' g = cell_upd (grid_of store g) r c (grid_of store g ! c ! r)"
    and ok: "good_store store' g" by blast
  have "diagonal_cell g (r, c) (store, lets) =
               (if grid_of store g ! c ! r \<in> set lets
                then ((store', remove1 (grid_of store g ! c ! r) lets), None)
                else ((store', lets), Some ValueError))"
    using assms(4,5,6) s not_isalpha_dash
    by (simp add: diagonal_cell_def get_ref_good[OF assms(1,2,3)] get_ref_good[OF assms(1,3,2)]
          remove_e_def)
  with g ok show ?thesis by blast
qed

lemma diagonal_cell_skip:
  assumes "good_store store g" "r < 5" "c < 5"
    and "\<not> (isalpha (grid_of store g ! r ! c) \<and> grid_of store g ! c ! r = CHR ''-'')"
    and "\<not> (isalpha (grid_of store g ! c ! r) \<and> grid_of store g ! r ! c = CHR ''-'')"
  shows "diagonal_cell g (r, c) (store, lets) = ((store, lets), None)"
  by (simp only: diagonal_cell_def prod.case sum.case get_ref_good[OF assms(1,2,3)]
        get_ref_good[OF assms(1,3,2)] if_not_P[OF assms(4)] if_not_P[OF assms(5)])

text \<open>A ValueError in the loop gives the sentinel.\<close>

lemma try_grid_after_ValueError:
  assumes "snd (loopS (diagonal_cell (start_grid s)) all_cells (rows s, letters s)) = Some ValueError"
  shows "snd (try_grid s) = Inr [Sentinel ''ERROR'']"
proof -
  obtain store' lets' where "loopS (diagonal_cell (start_grid s)) all_cells (rows s, letters s)
                               = ((store', lets'), Some ValueError)"
    using assms by (metis prod.exhaust snd_conv)
  then have "check_diagonal (rows s) (start_grid s) (letters s) = ((store', []), None)"
    by (simp add: check_diagonal_def)
  then show ?thesis by (simp add: try_grid_def Let_def)
qed


subsection \<open>The filled cells with an empty mirror partner\<close>

lemma distinct_all_cells: "distinct all_cells"
  by code_simp

lemma open_cells_iff:
  "(r, c) \<in> open_cells g x
     \<longleftrightarrow> r < 5 \<and> c < 5 \<and> isalpha (g ! r ! c) \<and> g ! r ! c = x \<and> g ! c ! r = CHR ''-''"
  by (auto simp: open_cells_def set_all_cells)

lemma finite_open_cells: "finite (open_cells g x)"
  by (simp add: open_cells_def)

lemma mirror_demand_card: "mirror_demand g x = card (open_cells g x)"
  unfolding mirror_demand_def open_cells_def
  by (rule distinct_card[symmetric]) (rule distinct_filter[OF distinct_all_cells])

lemma open_cells_swap:
  assumes "(r, c) \<in> open_cells g y"
  shows "(c, r) \<notin> open_cells g x"
  using assms not_isalpha_dash by (auto simp: open_cells_iff)

lemma open_cells_letter:
  assumes "(r, c) \<in> open_cells g y" "(r, c) \<in> open_cells g x"
  shows "x = y"
  using assms by (auto simp: open_cells_iff)

text \<open>Filling the empty partner of a filled cell closes that cell and no other.\<close>

lemma open_cells_fill:
  assumes wf: "wf_grid g" and q: "(qr, qc) \<in> open_cells g y"
  shows "open_cells (cell_upd g qc qr y) x = open_cells g x - {(qr, qc)}"
proof (rule set_eqI)
  fix p :: "nat \<times> nat"
  obtain r c where p: "p = (r, c)" by (cases p)
  let ?g = "cell_upd g qc qr y"
  from q have qr: "qr < 5" and qc: "qc < 5" and al: "isalpha y" and gy: "g ! qr ! qc = y"
    and gd: "g ! qc ! qr = CHR ''-''" by (auto simp: open_cells_iff)
  from al have yd: "y \<noteq> CHR ''-''" using not_isalpha_dash by metis
  with gy gd have ne: "qr \<noteq> qc" by metis
  have same: "?g ! qc ! qr = y" by (rule cell_upd_same[OF wf qc qr])
  have src: "?g ! qr ! qc = y" using cell_upd_other[of qr qc qc qr g y] ne gy by simp
  show "p \<in> open_cells ?g x \<longleftrightarrow> p \<in> open_cells g x - {(qr, qc)}"
  proof (cases "r = qc \<and> c = qr")
    case True
    with src yd have "(r, c) \<notin> open_cells ?g x" by (simp add: open_cells_iff)
    moreover from True gd have "(r, c) \<notin> open_cells g x"
      using not_isalpha_dash by (auto simp: open_cells_iff)
    ultimately show ?thesis using p by simp
  next
    case nt: False
    show ?thesis
    proof (cases "r = qr \<and> c = qc")
      case True
      with same yd have "(r, c) \<notin> open_cells ?g x" by (simp add: open_cells_iff)
      with True p show ?thesis by simp
    next
      case False
      from nt have "r \<noteq> qc \<or> c \<noteq> qr" by simp
      then have a: "?g ! r ! c = g ! r ! c" by (rule cell_upd_other)
      from False have "c \<noteq> qc \<or> r \<noteq> qr" by auto
      then have b: "?g ! c ! r = g ! c ! r" by (rule cell_upd_other)
      from a b False p show ?thesis by (simp add: open_cells_iff)
    qed
  qed
qed

text \<open>
  One pass of the loop body either does nothing, at a cell that is not open and whose
  partner is not open, or fills the partner of an open cell: the cell itself or its
  partner.
\<close>

lemma diagonal_cell_cases:
  assumes ok: "good_store store g" and a: "a < 5" and b: "b < 5"
  shows "(diagonal_cell g (a, b) (store, lets) = ((store, lets), None)
            \<and> (\<forall>x. (a, b) \<notin> open_cells (grid_of store g) x \<and> (b, a) \<notin> open_cells (grid_of store g) x))
         \<or> (\<exists>qr qc y store'.
               ((qr, qc) = (a, b) \<or> (qr, qc) = (b, a))
               \<and> (qr, qc) \<in> open_cells (grid_of store g) y
               \<and> good_store store' g
               \<and> grid_of store' g = cell_upd (grid_of store g) qc qr y
               \<and> diagonal_cell g (a, b) (store, lets) =
                   (if y \<in> set lets then ((store', remove1 y lets), None)
                    else ((store', lets), Some ValueError)))"
proof -
  let ?G = "grid_of store g"
  show ?thesis
  proof (cases "isalpha (?G ! a ! b) \<and> ?G ! b ! a = CHR ''-''")
    case True
    then have al: "isalpha (?G ! a ! b)" and da: "?G ! b ! a = CHR ''-''" by simp_all
    from diagonal_cell_fill[OF ok a b al da, of lets]
    obtain store' where "grid_of store' g = cell_upd ?G b a (?G ! a ! b)" "good_store store' g"
      "diagonal_cell g (a, b) (store, lets) =
         (if ?G ! a ! b \<in> set lets then ((store', remove1 (?G ! a ! b) lets), None)
          else ((store', lets), Some ValueError))" by blast
    moreover from a b al da have "(a, b) \<in> open_cells ?G (?G ! a ! b)" by (simp add: open_cells_iff)
    ultimately show ?thesis by blast
  next
    case nofill: False
    show ?thesis
    proof (cases "isalpha (?G ! b ! a) \<and> ?G ! a ! b = CHR ''-''")
      case True
      then have al: "isalpha (?G ! b ! a)" and da: "?G ! a ! b = CHR ''-''" by simp_all
      from diagonal_cell_mirror[OF ok a b nofill al da, of lets]
      obtain store' where "grid_of store' g = cell_upd ?G a b (?G ! b ! a)" "good_store store' g"
        "diagonal_cell g (a, b) (store, lets) =
           (if ?G ! b ! a \<in> set lets then ((store', remove1 (?G ! b ! a) lets), None)
            else ((store', lets), Some ValueError))" by blast
      moreover from a b al da have "(b, a) \<in> open_cells ?G (?G ! b ! a)" by (simp add: open_cells_iff)
      ultimately show ?thesis by blast
    next
      case False
      from nofill False have "\<forall>x. (a, b) \<notin> open_cells ?G x \<and> (b, a) \<notin> open_cells ?G x"
        by (auto simp: open_cells_iff)
      with diagonal_cell_skip[OF ok a b nofill False, of lets] show ?thesis by blast
    qed
  qed
qed

lemma count_list_remove1:
  "y \<in> set xs \<Longrightarrow> count_list (remove1 y xs) x = (if x = y then count_list xs x - 1 else count_list xs x)"
  by (induction xs) auto

lemma count_list_pos: "y \<in> set xs \<longleftrightarrow> 0 < count_list xs y"
  by (induction xs) auto

text \<open>
  When the pool has fewer of a letter than there are open cells holding it, the loop stops
  with the ValueError of \<^verbatim>\<open>letters.remove\<close>, at one of them or earlier.
\<close>

lemma diagonal_loop_exhausted:
  assumes "good_store store g" "set ps \<subseteq> {0..<5} \<times> {0..<5}"
    and "\<forall>z r c. (r, c) \<in> open_cells (grid_of store g) z \<longrightarrow> (r, c) \<in> set ps \<or> (c, r) \<in> set ps"
    and "count_list lets x < card (open_cells (grid_of store g) x)"
  shows "snd (loopS (diagonal_cell g) ps (store, lets)) = Some ValueError"
  using assms
proof (induction ps arbitrary: store lets)
  case Nil
  from Nil.prems(3) have "open_cells (grid_of store g) x = {}" by auto
  with Nil.prems(4) show ?case by simp
next
  case (Cons p ps)
  let ?G = "grid_of store g"
  obtain a b where p: "p = (a, b)" by (cases p)
  with Cons.prems(2) have ab: "a < 5" "b < 5" and sub: "set ps \<subseteq> {0..<5} \<times> {0..<5}" by simp_all
  from Cons.prems(1) have wf: "wf_grid ?G" by (simp add: good_store_def)
  from diagonal_cell_cases[OF Cons.prems(1) ab, of lets]
  show ?case
  proof
    assume skip: "diagonal_cell g (a, b) (store, lets) = ((store, lets), None)
            \<and> (\<forall>x. (a, b) \<notin> open_cells ?G x \<and> (b, a) \<notin> open_cells ?G x)"
    have "\<forall>z r c. (r, c) \<in> open_cells ?G z \<longrightarrow> (r, c) \<in> set ps \<or> (c, r) \<in> set ps"
    proof (intro allI impI)
      fix z r c assume rc: "(r, c) \<in> open_cells ?G z"
      with skip have "(r, c) \<noteq> (a, b) \<and> (r, c) \<noteq> (b, a)" by auto
      moreover from Cons.prems(3) rc have "(r, c) \<in> set (p # ps) \<or> (c, r) \<in> set (p # ps)"
        by blast
      ultimately show "(r, c) \<in> set ps \<or> (c, r) \<in> set ps" using p by auto
    qed
    from Cons.IH[OF Cons.prems(1) sub this Cons.prems(4)] skip p show ?thesis by simp
  next
    assume "\<exists>qr qc y store'.
               ((qr, qc) = (a, b) \<or> (qr, qc) = (b, a))
               \<and> (qr, qc) \<in> open_cells ?G y
               \<and> good_store store' g
               \<and> grid_of store' g = cell_upd ?G qc qr y
               \<and> diagonal_cell g (a, b) (store, lets) =
                   (if y \<in> set lets then ((store', remove1 y lets), None)
                    else ((store', lets), Some ValueError))"
    then obtain qr qc y store' where q: "(qr, qc) = (a, b) \<or> (qr, qc) = (b, a)"
      and qo: "(qr, qc) \<in> open_cells ?G y" and ok': "good_store store' g"
      and g': "grid_of store' g = cell_upd ?G qc qr y"
      and st: "diagonal_cell g (a, b) (store, lets) =
                   (if y \<in> set lets then ((store', remove1 y lets), None)
                    else ((store', lets), Some ValueError))" by blast
    show ?thesis
    proof (cases "y \<in> set lets")
      case False
      with st p show ?thesis by simp
    next
      case True
      have oc: "open_cells (grid_of store' g) z = open_cells ?G z - {(qr, qc)}" for z
        unfolding g' by (rule open_cells_fill[OF wf qo])
      have inv: "\<forall>z r c. (r, c) \<in> open_cells (grid_of store' g) z
                    \<longrightarrow> (r, c) \<in> set ps \<or> (c, r) \<in> set ps"
      proof (intro allI impI)
        fix z r c assume "(r, c) \<in> open_cells (grid_of store' g) z"
        with oc have rc: "(r, c) \<in> open_cells ?G z" and nq: "(r, c) \<noteq> (qr, qc)" by auto
        from open_cells_swap[OF qo, of z] have sw: "(qc, qr) \<notin> open_cells ?G z" .
        with rc have nq': "(r, c) \<noteq> (qc, qr)" by auto
        from q nq nq' have "(r, c) \<noteq> (a, b) \<and> (r, c) \<noteq> (b, a)" by auto
        moreover from Cons.prems(3) rc have "(r, c) \<in> set (p # ps) \<or> (c, r) \<in> set (p # ps)"
        by blast
      ultimately show "(r, c) \<in> set ps \<or> (c, r) \<in> set ps" using p by auto
      qed
      have cnt: "count_list (remove1 y lets) x < card (open_cells (grid_of store' g) x)"
      proof (cases "x = y")
        case xy: True
        from qo xy have "card (open_cells ?G x - {(qr, qc)}) = card (open_cells ?G x) - 1"
          by (simp add: finite_open_cells)
        moreover from True have "0 < count_list lets y" by (simp add: count_list_pos)
        ultimately show ?thesis using Cons.prems(4) xy True
          by (simp add: oc count_list_remove1)
      next
        case False
        with qo have "(qr, qc) \<notin> open_cells ?G x" using open_cells_letter by blast
        with Cons.prems(4) False True show ?thesis by (simp add: oc count_list_remove1)
      qed
      from Cons.IH[OF ok' sub inv cnt] st True p show ?thesis by simp
    qed
  qed
qed


text \<open>
  Claim C4.  When diagonal normalization has to mirror more filled cells holding some
  letter into their empty partners than the pool left by \<^verbatim>\<open>set_problem\<close> has copies of
  that letter, so that the pool has none left when one of them is reached, \<^verbatim>\<open>solve\<close>
  returns the list holding the sentinel \<^verbatim>\<open>"ERROR"\<close>: it raises nothing and does not
  return the empty list.  The grid is the pattern in lower case, as \<^verbatim>\<open>set_problem\<close>
  stores it.
\<close>

theorem solve_unsolvable_sentinel:
  assumes "wf_grid patterns"
    and "count_list (letters (set_problem s rack patterns)) x
           < mirror_demand (map (map lower) patterns) x"
  shows "snd (solve (set_problem s rack patterns)) = Inr [Sentinel ''ERROR'']
         \<and> snd (solve (set_problem s rack patterns)) \<noteq> Inr []"
proof -
  let ?s = "set_problem s rack patterns"
  let ?G = "grid_of (rows ?s) (start_grid ?s)"
  have G: "?G = map (map lower) patterns" by (rule set_problem_grid)
  have inv: "\<forall>z r c. (r, c) \<in> open_cells ?G z
                \<longrightarrow> (r, c) \<in> set all_cells \<or> (c, r) \<in> set all_cells"
    by (simp add: open_cells_iff set_all_cells)
  have sub: "set all_cells \<subseteq> {0..<5} \<times> {0..<5}" by (simp add: set_all_cells)
  from assms(2) have "count_list (letters ?s) x < card (open_cells ?G x)"
    by (simp add: G mirror_demand_card)
  from diagonal_loop_exhausted[OF set_problem_good[OF assms(1)] sub inv this]
  have "snd (loopS (diagonal_cell (start_grid ?s)) all_cells (rows ?s, letters ?s)) = Some ValueError" .
  from try_grid_after_ValueError[OF this] show ?thesis by (simp add: solve_def)
qed

lemma spent_example:
  "wf_grid spent_pattern"
  "count_list (letters (set_problem (new_solver (forward_graph square_words)) spent_rack spent_pattern))
      CHR ''a'' = 1"
  "mirror_demand (map (map lower) spent_pattern) CHR ''a'' = 2"
  by code_simp+

theorem solve_unsolvable_sentinel_witness:
  "wf_grid spent_pattern
   \<and> count_list (letters (set_problem (new_solver (forward_graph square_words)) spent_rack spent_pattern))
        CHR ''a'' = 1
   \<and> mirror_demand (map (map lower) spent_pattern) CHR ''a'' = 2
   \<and> snd (solve (set_problem (new_solver (forward_graph square_words)) spent_rack spent_pattern))
       = Inr [Sentinel ''ERROR'']
   \<and> snd (solve (set_problem (new_solver (forward_graph square_words)) spent_rack spent_pattern))
       \<noteq> Inr []"
proof -
  have "count_list (letters (set_problem (new_solver (forward_graph square_words)) spent_rack spent_pattern))
          CHR ''a'' < mirror_demand (map (map lower) spent_pattern) CHR ''a''"
    by (simp add: spent_example)
  from solve_unsolvable_sentinel[OF spent_example(1) this] spent_example show ?thesis by simp
qed

text \<open>
  The scenario of the specification is the case of one filled cell and a pool without the
  letter.
\<close>

lemma solve_unsolvable_one_cell:
  assumes "wf_grid patterns" "r < 5" "c < 5"
    and "isalpha (patterns ! r ! c)" "patterns ! c ! r = CHR ''-''"
    and "lower (patterns ! r ! c) \<notin> set (letters (set_problem s rack patterns))"
  shows "count_list (letters (set_problem s rack patterns)) (lower (patterns ! r ! c))
           < mirror_demand (map (map lower) patterns) (lower (patterns ! r ! c))"
proof -
  let ?G = "map (map lower) patterns"
  from assms(1,2,3) have len: "length patterns = 5" "length (patterns ! r) = 5" "length (patterns ! c) = 5"
    by (simp_all add: wf_grid_def)
  have cell: "?G ! r ! c = lower (patterns ! r ! c)" "?G ! c ! r = lower (patterns ! c ! r)"
    using assms(2,3) len by simp_all
  from assms(2-5) have "(r, c) \<in> open_cells ?G (lower (patterns ! r ! c))"
    by (simp add: open_cells_iff cell isalpha_lower lower_dash)
  then have "0 < card (open_cells ?G (lower (patterns ! r ! c)))"
    using finite_open_cells[of ?G] by (auto simp: card_gt_0_iff)
  moreover from assms(6) have "count_list (letters (set_problem s rack patterns)) (lower (patterns ! r ! c)) = 0"
    by (simp add: count_list_pos)
  ultimately show ?thesis by (simp add: mirror_demand_card)
qed

text \<open>With no wildcard in the grid the loop of \<^verbatim>\<open>check_diagonal\<close> does nothing.\<close>

lemma diagonal_loop_noop:
  assumes "good_store store g" "no_wildcard (grid_of store g)" "set ps \<subseteq> {0..<5} \<times> {0..<5}"
  shows "loopS (diagonal_cell g) ps (store, lets) = ((store, lets), None)"
  using assms(3)
proof (induction ps)
  case Nil
  then show ?case by simp
next
  case (Cons p ps)
  obtain a b where p: "p = (a, b)" by (cases p)
  with Cons.prems have ab: "a < 5" "b < 5" by simp_all
  from assms(1) have wf: "wf_grid (grid_of store g)" by (simp add: good_store_def)
  have nd: "grid_of store g ! x ! y \<noteq> CHR ''-''" if "x < 5" "y < 5" for x y
  proof -
    from wf that have "grid_of store g ! x \<in> set (grid_of store g)"
      and "grid_of store g ! x ! y \<in> set (grid_of store g ! x)"
      by (simp_all add: wf_grid_def)
    with assms(2) show ?thesis unfolding no_wildcard_def by metis
  qed
  have "diagonal_cell g (a, b) (store, lets) = ((store, lets), None)"
    by (rule diagonal_cell_skip[OF assms(1) ab]) (simp_all add: nd ab)
  with Cons p show ?case by simp
qed

lemma remove_used_mset: "mset (remove_used lets used) = mset lets - mset used"
proof (induction used arbitrary: lets)
  case Nil
  then show ?case by simp
next
  case (Cons l used)
  show ?case
  proof (cases "l \<in> set lets")
    case True
    then show ?thesis by (simp add: Cons.IH)
  next
    case False
    then have "mset lets - {#l#} = mset lets" by (simp add: diff_single_trivial)
    then have "mset lets - add_mset l (mset used) = mset lets - mset used"
      by (metis add_mset_add_single diff_diff_add_mset union_commute)
    with False show ?thesis by (simp add: Cons.IH)
  qed
qed

lemma set_problem_letters:
  "letters (set_problem s rack patterns)
     = remove_used (sort (map lower (concat rack)))
         (filter isalpha (concat (map (map lower) patterns)))"
  by (simp add: set_problem_def Let_def split: prod.splits)

text \<open>
  Claim C3, where the code departs from it.  \<^verbatim>\<open>check_diagonal\<close> reports a failed
  \<^verbatim>\<open>remove\<close> by emptying the list of letters, and \<^verbatim>\<open>try_grid\<close> reads an empty list as
  that report.  When every cell of the pattern is a letter and the rack holds exactly the
  letters of the pattern, \<^verbatim>\<open>set_problem\<close> leaves an empty pool though no
  \<^verbatim>\<open>remove\<close> has failed, and \<^verbatim>\<open>solve\<close> returns the list holding the sentinel
  \<^verbatim>\<open>"ERROR"\<close>, not the grid.
\<close>

theorem solve_resolved_pattern_sentinel:
  assumes "wf_grid patterns"
    and "list_all (list_all isalpha) patterns"
    and "mset (map lower (concat rack)) = mset (map lower (concat patterns))"
  shows "snd (solve (set_problem s rack patterns)) = Inr [Sentinel ''ERROR'']"
proof -
  let ?s = "set_problem s rack patterns"
  have alpha: "isalpha x" if "x \<in> set (concat (map (map lower) patterns))" for x
    using that assms(2) by (auto simp: list_all_iff isalpha_lower)
  then have "filter isalpha (concat (map (map lower) patterns)) = concat (map (map lower) patterns)"
    by (simp add: filter_id_conv)
  also have "\<dots> = map lower (concat patterns)" by (simp add: map_concat)
  finally have "mset (letters ?s) = mset (sort (map lower (concat rack))) - mset (map lower (concat patterns))"
    by (simp add: set_problem_letters remove_used_mset)
  with assms(3) have empty: "letters ?s = []" by simp
  have nw: "no_wildcard (grid_of (rows ?s) (start_grid ?s))"
    unfolding set_problem_grid no_wildcard_def
  proof (intro ballI)
    fix rw assume "rw \<in> set (map (map lower) patterns)"
    then obtain p where p: "p \<in> set patterns" "rw = map lower p" by auto
    have "isalpha x" if "x \<in> set rw" for x
    proof -
      from that p obtain y where "y \<in> set p" "x = lower y" by auto
      with p(1) assms(2) show ?thesis by (auto simp: list_all_iff isalpha_lower)
    qed
    then show "CHR ''-'' \<notin> set rw" using not_isalpha_dash by blast
  qed
  have "set all_cells \<subseteq> {0..<5} \<times> {0..<5}" by (simp add: set_all_cells)
  from diagonal_loop_noop[OF set_problem_good[OF assms(1)] nw this, of "letters ?s"]
  have "check_diagonal (rows ?s) (start_grid ?s) (letters ?s) = ((rows ?s, letters ?s), None)"
    by (simp add: check_diagonal_def)
  with empty show ?thesis by (simp add: solve_def try_grid_def Let_def)
qed

lemma solve_resolved_example:
  "snd (solve (set_problem (new_solver (forward_graph square_words)) square_words square_words))
     = Inr [Sentinel ''ERROR'']"
  by code_simp

lemma all_less_5: "(\<forall>r<5. P r) \<longleftrightarrow> P (0::nat) \<and> P 1 \<and> P 2 \<and> P 3 \<and> P 4"
proof
  assume "\<forall>r<5. P r"
  then show "P 0 \<and> P 1 \<and> P 2 \<and> P 3 \<and> P 4" by simp
next
  assume a: "P 0 \<and> P 1 \<and> P 2 \<and> P 3 \<and> P 4"
  show "\<forall>r<5. P r"
  proof (intro allI impI)
    fix r :: nat assume "r < 5"
    then have "r = 0 \<or> r = 1 \<or> r = 2 \<or> r = 3 \<or> r = 4" by arith
    with a show "P r" by blast
  qed
qed

lemma square_words_facts:
  "wf_grid square_words" "no_wildcard square_words" "symmetric square_words"
  by (simp_all add: wf_grid_def no_wildcard_def symmetric_def square_words_def all_less_5)

lemma square_words_alpha: "list_all (list_all isalpha) square_words"
  by code_simp

theorem solve_resolved_pattern_sentinel_witness:
  "wf_grid square_words \<and> list_all (list_all isalpha) square_words
   \<and> mset (map lower (concat square_words)) = mset (map lower (concat square_words))
   \<and> snd (solve (set_problem (new_solver (forward_graph square_words)) square_words square_words))
       = Inr [Sentinel ''ERROR'']"
  using solve_resolved_pattern_sentinel[OF square_words_facts(1) square_words_alpha refl,
      of "new_solver (forward_graph square_words)"]
    square_words_facts square_words_alpha
  by simp

text \<open>
  At this input the claim asks for the grid: the pattern is fully resolved and symmetric,
  its rows are words of the lexicon and the rack holds exactly its letters.  With a rack
  that leaves letters in the pool the same pattern is searched and returned.
\<close>

lemma solve_resolved_pattern_not_returned:
  "wf_grid square_words \<and> no_wildcard square_words \<and> symmetric square_words
   \<and> mset (map lower (concat square_words)) = mset (map lower (concat square_words))
   \<and> snd (solve (set_problem (new_solver (forward_graph square_words)) square_words square_words))
       \<noteq> Inr [Grid square_words]"
  using square_words_facts solve_resolved_example by simp

lemma solve_resolved_pattern_spare_pool:
  "snd (solve (set_problem (new_solver (forward_graph square_words)) spare_rack square_words))
     = Inr [Grid square_words]"
  by code_simp

section \<open>The rows of \<^verbatim>\<open>start_grid\<close> after \<^verbatim>\<open>solve\<close>\<close>





subsection \<open>The diagonal-normalized grid\<close>















section \<open>Queries that walk off the graph\<close>

text \<open>
  Six of the seven query families answer an anchor whose path is not in the graph with an
  empty result: \<^verbatim>\<open>set()\<close> at the call, or a generator that yields nothing.
\<close>

lemma off_graph_empty:
  assumes "follow root (rev anchor) = None"
  shows "iterate (starts_with root anchor) = Inr []"
    and "iterate (ends_with root anchor) = Inr []"
    and "iterate (contains_lett root anchor lets) = Inr []"
    and "iterate (starts_with_lett root anchor lets) = Inr []"
    and "iterate (ends_with_lett root anchor lets) = Inr []"
    and "iterate (contains_lett_patt root anchor lets pattern) = Inr []"
  using assms
  by (simp_all add: starts_with_def ends_with_def contains_lett_def starts_with_lett_def
        ends_with_lett_def contains_lett_patt_def)

text \<open>
  Claim C5, where the code departs from it.  \<^verbatim>\<open>contains\<close> hands the \<^verbatim>\<open>None\<close> of
  \<^verbatim>\<open>follow\<close> to \<^verbatim>\<open>_crawl\<close>; its \<^verbatim>\<open>except TypeError\<close> guards the creation of the
  generator only, and iterating the generator raises AttributeError at \<^verbatim>\<open>node.is_end\<close>.
\<close>

theorem contains_off_graph_raises:
  assumes "follow root (rev sub) = None"
  shows "contains root sub = Generator (Inl AttributeError)
         \<and> iterate (contains root sub) = Inl AttributeError"
  using assms by (simp add: contains_def)

theorem contains_off_graph_raises_witness:
  "follow (Node [] False) (rev ''z'') = None
   \<and> contains (Node [] False) ''z'' = Generator (Inl AttributeError)
   \<and> iterate (contains (Node [] False) ''z'') = Inl AttributeError"
  using contains_off_graph_raises[of "Node [] False" "''z''"] by (simp add: getitem_def)

section \<open>Edges that \<^verbatim>\<open>_add_word\<close> points at another node\<close>

lemma node_edges_differ:
  assumes "h_edges (h ! t) \<noteq> []"
  shows "node_edges h t \<noteq> node_edges h e
           \<longleftrightarrow> fst ` set (h_edges (h ! t)) \<noteq> fst ` set (h_edges (h ! e))"
  using assms by (auto simp: node_edges_def)

text \<open>
  Claim C8, as the code has it.  At every split position, when the edge for the next
  character is there already, the insertion raises AttributeError exactly when the node
  the edge leads to has an edge of its own and a set of labels other than that of the node
  of the iteration before.  Otherwise, and so always when the edge leads to a node with no
  edge, the edge is pointed at the node of the iteration before and nothing is raised.
\<close>

theorem link_split_existing_edge:
  assumes "edge (fst (split_node h word m)) (snd (split_node h word m)) (word ! (m + 1)) = Some t"
  shows "link_split h word m existing_node =
           (if h_edges (fst (split_node h word m) ! t) \<noteq> []
               \<and> fst ` set (h_edges (fst (split_node h word m) ! t))
                    \<noteq> fst ` set (h_edges (fst (split_node h word m) ! existing_node))
            then (fst (split_node h word m), Inl AttributeError)
            else (set_edge (fst (split_node h word m)) (snd (split_node h word m))
                    (word ! (m + 1)) existing_node,
                  Inr (snd (split_node h word m))))"
proof -
  obtain h2 node where sp: "split_node h word m = (h2, node)" by (cases "split_node h word m")
  with assms have e: "edge h2 node (word ! (m + 1)) = Some t" by simp
  show ?thesis
  proof (cases "h_edges (h2 ! t) = []")
    case True
    with e sp show ?thesis by (simp add: link_split_def truthy_def)
  next
    case False
    from node_edges_differ[OF False, of existing_node] False e sp show ?thesis
      by (simp add: link_split_def truthy_def)
  qed
qed

lemma plus_example:
  "edge (fst (split_node plus_store ''b++b'' 0)) (snd (split_node plus_store ''b++b'' 0))
     (''b++b'' ! (0 + 1)) = Some 3"
  "h_edges (fst (split_node plus_store ''b++b'' 0) ! 3) \<noteq> []"
  "fst ` set (h_edges (fst (split_node plus_store ''b++b'' 0) ! 3))
     \<noteq> fst ` set (h_edges (fst (split_node plus_store ''b++b'' 0) ! plus_existing))"
  "snd (add_word empty_gaddag ''b++b'') = Inl AttributeError"
  by code_simp+

theorem link_split_existing_edge_witness:
  "edge (fst (split_node plus_store ''b++b'' 0)) (snd (split_node plus_store ''b++b'' 0))
     (''b++b'' ! (0 + 1)) = Some 3
   \<and> link_split plus_store ''b++b'' 0 plus_existing
       = (fst (split_node plus_store ''b++b'' 0), Inl AttributeError)
   \<and> snd (add_word empty_gaddag ''b++b'') = Inl AttributeError"
  using link_split_existing_edge[OF plus_example(1), of plus_existing] plus_example
  by simp

text \<open>
  The claim as stated fails: when \<^verbatim>\<open>abc\<close> is added after \<^verbatim>\<open>ab\<close>, at split position 0
  the edge \<^verbatim>\<open>b\<close> is there and leads to another node than the node of the iteration
  before; the insertion points it at that node and returns \<^verbatim>\<open>True\<close>.
\<close>

theorem add_word_overwrites_edge:
  "edge (fst (split_node abc_store ''abc'' 0)) (snd (split_node abc_store ''abc'' 0)) (''abc'' ! (0 + 1))
     = Some 6
   \<and> abc_existing = 3 \<and> (6::nat) \<noteq> 3
   \<and> snd (link_split abc_store ''abc'' 0 abc_existing) = Inr (snd (split_node abc_store ''abc'' 0))
   \<and> edge (fst (link_split abc_store ''abc'' 0 abc_existing)) (snd (split_node abc_store ''abc'' 0))
        (''abc'' ! (0 + 1)) = Some 3
   \<and> add_word ab_gaddag ''abc'' = (fst (link_split abc_store ''abc'' 0 abc_existing), Inr True)"
  by code_simp

section \<open>Insertion into the store\<close>

subsection \<open>Reading a store after one of its updates\<close>











lemma edge_alloc:
  "edge (h @ [new_node e]) k c = (if k = length h then None else if k < length h then edge h k c
                                   else edge (h @ [new_node e]) k c)"
  by (simp add: edge_def nth_append new_node_def)




subsection \<open>The kinds of the nodes\<close>










subsection \<open>Paths of the trie\<close>



subsection \<open>The kinds of the nodes, one update at a time\<close>






subsection \<open>The methods of \<^verbatim>\<open>Node\<close> on a store of a built GADDAG\<close>










subsection \<open>\<^verbatim>\<open>_add_word\<close> on a store of a built GADDAG\<close>











section \<open>Membership after insertion\<close>





end
